theory Spec2Isabelle
  imports Complex_Main
begin

section \<open>Python values used by main.py\<close>

text \<open>
  A Python \<open>str\<close> is a sequence of Unicode code points; tokens such as the two-character
  word U+897F U+533A are lists of two numbers. A \<open>dict\<close> (and a \<open>Counter\<close>) is an
  insertion-ordered association list; \<open>dict_set\<close> keeps the keys pairwise distinct.
\<close>

type_synonym ustr = "nat list"

type_synonym 'k pydict = "('k \<times> int) list"

datatype py_error = OverflowError | ValueError | ZeroDivisionError

datatype pyfloat = Finite real | PosInf | NegInf

definition dict_keys :: "'k pydict \<Rightarrow> 'k list" where
  "dict_keys d = map fst d"

definition dict_get :: "'k pydict \<Rightarrow> 'k \<Rightarrow> int \<Rightarrow> int" where
  "dict_get d k dflt = (case map_of d k of None \<Rightarrow> dflt | Some v \<Rightarrow> v)"

fun dict_set :: "'k pydict \<Rightarrow> 'k \<Rightarrow> int \<Rightarrow> 'k pydict" where
  "dict_set [] k v = [(k, v)]"
| "dict_set ((k', v') # d) k v =
     (if k' = k then (k, v) # d else (k', v') # dict_set d k v)"

text \<open>
  \<open>Counter(words)\<close> runs, for each element in order,
  \<^verbatim>\<open>mapping[elem] = mapping.get(elem, 0) + 1\<close> on an initially empty mapping.
\<close>

definition count_elements :: "'k pydict \<Rightarrow> 'k list \<Rightarrow> 'k pydict" where
  "count_elements mapping iterable =
     fold (\<lambda>elem m. dict_set m elem (dict_get m elem 0 + 1)) iterable mapping"

definition Counter :: "'k list \<Rightarrow> 'k pydict" where
  "Counter iterable = count_elements [] iterable"

text \<open>What the counting loop is expected to leave under a key.\<close>

definition counts_from :: "'k pydict \<Rightarrow> 'k list \<Rightarrow> 'k \<Rightarrow> int" where
  "counts_from m ws k = dict_get m k 0 + int (count_list ws k)"

section \<open>preprocess_text\<close>

text \<open>
  \<^verbatim>\<open>re.sub(pattern, repl, text)\<close> for a pattern that is one character class: every
  character of the class is a match and is replaced by \<open>repl\<close>, every other character
  is copied. The class of main.py is \<^verbatim>\<open>[^\w\s]\<close>: for a \<open>str\<close> pattern \<^verbatim>\<open>\w\<close> is
  ``alphanumeric in the Unicode database, or the underscore'' and \<^verbatim>\<open>\s\<close> is Unicode
  whitespace. The two Unicode tables (\<open>isalnum\<close>, \<open>isspace\<close>) and the segmenter
  \<^verbatim>\<open>jieba.cut\<close> (a third-party library with its dictionary) are parameters.
\<close>

fun re_sub :: "(nat \<Rightarrow> bool) \<Rightarrow> ustr \<Rightarrow> ustr \<Rightarrow> ustr" where
  "re_sub cls repl [] = []"
| "re_sub cls repl (c # cs) =
     (if cls c then repl @ re_sub cls repl cs else c # re_sub cls repl cs)"

definition uni_is_word :: "(nat \<Rightarrow> bool) \<Rightarrow> nat \<Rightarrow> bool" where
  "uni_is_word isalnum c = (isalnum c \<or> c = 95)"

definition not_word_not_space :: "(nat \<Rightarrow> bool) \<Rightarrow> (nat \<Rightarrow> bool) \<Rightarrow> nat \<Rightarrow> bool" where
  "not_word_not_space isalnum isspace c = (\<not> (uni_is_word isalnum c \<or> isspace c))"

definition preprocess_text ::
  "(nat \<Rightarrow> bool) \<Rightarrow> (nat \<Rightarrow> bool) \<Rightarrow> (ustr \<Rightarrow> ustr list) \<Rightarrow> ustr \<Rightarrow> ustr list" where
  "preprocess_text isalnum isspace jieba_cut text =
     (let text' = re_sub (not_word_not_space isalnum isspace) [] text;
          words = jieba_cut text'
      in words)"

text \<open>
  Modelled from the spec: the segmenter \<^verbatim>\<open>jieba.cut\<close> is a third-party library, not
  part of the repository. The specification has it ``split the cleaned text into
  meaningful word units'', as an ordered sequence of token strings: every token is
  non-empty and the tokens, put end to end in order, are the text that was segmented.
\<close>

definition word_segmenter :: "(ustr \<Rightarrow> ustr list) \<Rightarrow> bool" where
  "word_segmenter jieba_cut \<longleftrightarrow>
     (\<forall>t. [] \<notin> set (jieba_cut t) \<and> concat (jieba_cut t) = t)"

section \<open>Binary64 arithmetic\<close>

text \<open>
  A finite Python \<open>float\<close> is the real number it denotes (\<open>-0.0\<close> and \<open>0.0\<close>, which
  compare equal, are both \<open>0\<close>). Every operation returns the exact result rounded to the
  nearest double, ties to even: 53 significant bits, subnormals below \<open>2^-1022\<close>.
  \<open>bit_length\<close> is \<^verbatim>\<open>int.bit_length\<close>; \<open>flog2 x\<close> is the exponent of the binade of
  \<open>x > 0\<close>.
\<close>

fun bit_length :: "nat \<Rightarrow> nat" where
  "bit_length n = (if n = 0 then 0 else Suc (bit_length (n div 2)))"

definition pow2 :: "int \<Rightarrow> real" where
  "pow2 e = (if 0 \<le> e then 2 ^ nat e else 1 / 2 ^ nat (- e))"

definition flog2 :: "real \<Rightarrow> int" where
  "flog2 x = (if 1 \<le> x then int (bit_length (nat \<lfloor>x\<rfloor>)) - 1
              else - int (bit_length (nat (\<lceil>1 / x\<rceil> - 1))))"

definition round_half_even :: "real \<Rightarrow> int" where
  "round_half_even y =
     (let f = \<lfloor>y\<rfloor>; d = y - of_int f
      in if d < 1 / 2 then f else if 1 / 2 < d then f + 1
         else if even f then f else f + 1)"

definition round_double :: "real \<Rightarrow> real" where
  "round_double x =
     (if x = 0 then 0
      else let e = max (flog2 \<bar>x\<bar> - 52) (- 1074)
           in of_int (round_half_even (x / pow2 e)) * pow2 e)"

definition float_overflow :: "real \<Rightarrow> pyfloat" where
  "float_overflow r =
     (if 2 ^ 1024 \<le> r then PosInf else if r \<le> - (2 ^ 1024) then NegInf else Finite r)"

text \<open>
  Converting an \<open>int\<close> to \<open>float\<close> rounds to nearest-even and raises OverflowError
  (``int too large to convert to float'') when the rounded value leaves the double range.
\<close>

definition float_of_int :: "int \<Rightarrow> py_error + real" where
  "float_of_int n =
     (let r = round_double (of_int n)
      in if 2 ^ 1024 \<le> \<bar>r\<bar> then Inl OverflowError else Inr r)"

fun isqrt :: "nat \<Rightarrow> nat" where
  "isqrt n =
     (if n < 4 then (if n = 0 then 0 else 1)
      else let r = 2 * isqrt (n div 4)
           in if (r + 1) * (r + 1) \<le> n then r + 1 else r)"

text \<open>
  The correctly rounded square root of a finite double \<open>x > 0\<close>: scale \<open>x\<close> by a power of
  four into \<open>[2^104, 2^106)\<close>, take the integer square root \<open>r\<close> (53 bits) and compare
  with the midpoint \<open>r + 1/2\<close>.
\<close>

definition float_sqrt :: "real \<Rightarrow> real" where
  "float_sqrt x =
     (if x \<le> 0 then 0
      else let k = flog2 x div 2 - 52;
               y = x / pow2 (2 * k);
               r = int (isqrt (nat \<lfloor>y\<rfloor>));
               mid = (of_int r + 1 / 2) ^ 2
           in of_int (if y < mid then r else if mid < y then r + 1
                      else if even r then r else r + 1) * pow2 k)"

text \<open>
  \<^verbatim>\<open>math.sqrt\<close> on an \<open>int\<close>: convert to \<open>float\<close> (OverflowError), reject negative
  arguments (ValueError, ``math domain error''), then take the root.
\<close>

definition math_sqrt :: "int \<Rightarrow> py_error + real" where
  "math_sqrt n =
     (case float_of_int n of
        Inl e \<Rightarrow> Inl e
      | Inr x \<Rightarrow> if x < 0 then Inl ValueError else Inr (float_sqrt x))"

text \<open>\<open>float * float\<close> on finite operands: overflow gives an infinity, no exception.\<close>

definition float_mul :: "real \<Rightarrow> real \<Rightarrow> pyfloat" where
  "float_mul a b = float_overflow (round_double (a * b))"

text \<open>
  \<open>int / float\<close>: the \<open>int\<close> is converted first (OverflowError), a zero divisor raises
  ZeroDivisionError, an infinite divisor gives zero.
\<close>

definition int_div_float :: "int \<Rightarrow> pyfloat \<Rightarrow> py_error + pyfloat" where
  "int_div_float n y =
     (case float_of_int n of
        Inl e \<Rightarrow> Inl e
      | Inr x \<Rightarrow>
          (case y of
             Finite b \<Rightarrow>
               if b = 0 then Inl ZeroDivisionError
               else Inr (float_overflow (round_double (x / b)))
           | PosInf \<Rightarrow> Inr (Finite 0)
           | NegInf \<Rightarrow> Inr (Finite 0)))"

section \<open>calculate_cosine_similarity and calculate_similarity\<close>

text \<open>
  \<open>all_words\<close> is a Python \<open>set\<close>: it is iterated twice, in the same order, and that
  order depends on the hash seed of the process. \<open>cosine_over\<close> is the body of the
  function for one iteration order; \<open>calculate_cosine_similarity\<close> fixes the order
  ``keys of \<open>vec1\<close>, then the new keys of \<open>vec2\<close>''. The sums are over Python's
  unbounded \<open>int\<close>, so they are exact.
\<close>

definition cosine_over :: "'k list \<Rightarrow> 'k pydict \<Rightarrow> 'k pydict \<Rightarrow> py_error + pyfloat" where
  "cosine_over all_words vec1 vec2 =
     (let vector1 = map (\<lambda>word. dict_get vec1 word 0) all_words;
          vector2 = map (\<lambda>word. dict_get vec2 word 0) all_words;
          dot_product = sum_list (map (\<lambda>(v1, v2). v1 * v2) (zip vector1 vector2))
      in case math_sqrt (sum_list (map (\<lambda>v. v * v) vector1)) of
           Inl e \<Rightarrow> Inl e
         | Inr magnitude1 \<Rightarrow>
             (case math_sqrt (sum_list (map (\<lambda>v. v * v) vector2)) of
                Inl e \<Rightarrow> Inl e
              | Inr magnitude2 \<Rightarrow>
                  if magnitude1 = 0 \<or> magnitude2 = 0 then Inr (Finite 0)
                  else int_div_float dot_product (float_mul magnitude1 magnitude2)))"

definition calculate_cosine_similarity :: "'k pydict \<Rightarrow> 'k pydict \<Rightarrow> py_error + pyfloat" where
  "calculate_cosine_similarity vec1 vec2 =
     cosine_over (remdups (dict_keys vec1 @ dict_keys vec2)) vec1 vec2"

definition calculate_similarity ::
  "(nat \<Rightarrow> bool) \<Rightarrow> (nat \<Rightarrow> bool) \<Rightarrow> (ustr \<Rightarrow> ustr list) \<Rightarrow> ustr \<Rightarrow> ustr \<Rightarrow> py_error + pyfloat" where
  "calculate_similarity isalnum isspace jieba_cut original_text copied_text =
     (let original_words = preprocess_text isalnum isspace jieba_cut original_text;
          copied_words = preprocess_text isalnum isspace jieba_cut copied_text;
          original_freq = Counter original_words;
          copied_freq = Counter copied_words
      in calculate_cosine_similarity original_freq copied_freq)"

text \<open>
  The quantities of the specification: the union vocabulary, the dot product and the sum
  of squares over it, and the function of these three numbers that the body computes.
\<close>

definition vocabulary :: "'k pydict \<Rightarrow> 'k pydict \<Rightarrow> 'k set" where
  "vocabulary vec1 vec2 = set (dict_keys vec1) \<union> set (dict_keys vec2)"

definition dot_product :: "'k pydict \<Rightarrow> 'k pydict \<Rightarrow> int" where
  "dot_product vec1 vec2 =
     (\<Sum>word\<in>vocabulary vec1 vec2. dict_get vec1 word 0 * dict_get vec2 word 0)"

definition sum_squares :: "'k set \<Rightarrow> 'k pydict \<Rightarrow> int" where
  "sum_squares V vec = (\<Sum>word\<in>V. dict_get vec word 0 * dict_get vec word 0)"

definition cosine_of_sums :: "int \<Rightarrow> int \<Rightarrow> int \<Rightarrow> py_error + pyfloat" where
  "cosine_of_sums dot n1 n2 =
     (case math_sqrt n1 of
        Inl e \<Rightarrow> Inl e
      | Inr magnitude1 \<Rightarrow>
          (case math_sqrt n2 of
             Inl e \<Rightarrow> Inl e
           | Inr magnitude2 \<Rightarrow>
               if magnitude1 = 0 \<or> magnitude2 = 0 then Inr (Finite 0)
               else int_div_float dot (float_mul magnitude1 magnitude2)))"

text \<open>
  A frequency vector counts the tokens of one document: distinct keys, non-negative
  counts, and a total that is the length of a Python list, hence below \<open>2^63\<close>.
\<close>

definition frequency_vector :: "'k pydict \<Rightarrow> bool" where
  "frequency_vector vec \<longleftrightarrow>
     distinct (dict_keys vec) \<and> list_all (\<lambda>(k, v). 0 \<le> v) vec
     \<and> sum_list (map snd vec) < 2 ^ 63"

text \<open>
  The two mappings of \<open>test_calculate_cosine_similarity_partial\<close> in test_main.py: keys
  U+897F U+533A, U+5171 U+4EAB, U+98DF U+5802 for the first and U+897F U+533A,
  U+5171 U+4EAB, U+5403 U+996D for the second, every count 1.
\<close>

definition partial_vec1 :: "ustr pydict" where
  "partial_vec1 = [([35199, 21306], 1), ([20849, 20139], 1), ([39135, 22530], 1)]"

definition partial_vec2 :: "ustr pydict" where
  "partial_vec2 = [([35199, 21306], 1), ([20849, 20139], 1), ([21507, 39277], 1)]"

section \<open>Counter\<close>

declare bit_length.simps [simp del]
declare isqrt.simps [simp del]

lemma map_of_dict_set:
  "map_of (dict_set d k v) = (map_of d)(k \<mapsto> v)"
  by (induction d k v rule: dict_set.induct) (auto simp: fun_upd_twist)

lemma dict_keys_dict_set:
  "set (dict_keys (dict_set d k v)) = insert k (set (dict_keys d))"
  by (induction d k v rule: dict_set.induct) (auto simp: dict_keys_def)

lemma distinct_dict_set:
  "distinct (dict_keys d) \<Longrightarrow> distinct (dict_keys (dict_set d k v))"
proof (induction d k v rule: dict_set.induct)
  case (1 k v)
  then show ?case by (simp add: dict_keys_def)
next
  case (2 k' v' d k v)
  have "set (map fst (dict_set d k v)) = insert k (set (map fst d))"
    using dict_keys_dict_set [of d k v] by (simp add: dict_keys_def)
  with 2 show ?case by (auto simp: dict_keys_def)
qed

lemma dict_get_dict_set:
  "dict_get (dict_set d k v) k' dflt = (if k' = k then v else dict_get d k' dflt)"
  by (simp add: dict_get_def map_of_dict_set)

lemma count_elements_get:
  "dict_get (count_elements m ws) k 0 = counts_from m ws k"
proof (induction ws arbitrary: m)
  case Nil
  then show ?case by (simp add: count_elements_def counts_from_def)
next
  case (Cons w ws)
  have "dict_get (count_elements m (w # ws)) k 0
      = dict_get (count_elements (dict_set m w (dict_get m w 0 + 1)) ws) k 0"
    by (simp add: count_elements_def)
  also have "\<dots> = counts_from (dict_set m w (dict_get m w 0 + 1)) ws k"
    by (rule Cons.IH)
  also have "\<dots> = counts_from m (w # ws) k"
    by (simp add: counts_from_def dict_get_dict_set)
  finally show ?case .
qed

lemma count_elements_keys:
  "set (dict_keys (count_elements m ws)) = set (dict_keys m) \<union> set ws"
proof (induction ws arbitrary: m)
  case Nil
  then show ?case by (simp add: count_elements_def)
next
  case (Cons w ws)
  have "count_elements m (w # ws) = count_elements (dict_set m w (dict_get m w 0 + 1)) ws"
    by (simp add: count_elements_def)
  then show ?case
    by (simp add: Cons.IH dict_keys_dict_set)
qed

lemma count_elements_distinct:
  "distinct (dict_keys m) \<Longrightarrow> distinct (dict_keys (count_elements m ws))"
proof (induction ws arbitrary: m)
  case Nil
  then show ?case by (simp add: count_elements_def)
next
  case (Cons w ws)
  have "count_elements m (w # ws) = count_elements (dict_set m w (dict_get m w 0 + 1)) ws"
    by (simp add: count_elements_def)
  with Cons show ?case
    by (simp add: distinct_dict_set)
qed

lemma Counter_distinct: "distinct (dict_keys (Counter ws))"
  unfolding Counter_def by (rule count_elements_distinct) (simp add: dict_keys_def)

lemma Counter_keys: "set (dict_keys (Counter ws)) = set ws"
  by (simp add: Counter_def count_elements_keys) (simp add: dict_keys_def)

lemma Counter_get: "dict_get (Counter ws) k 0 = int (count_list ws k)"
  by (simp add: Counter_def count_elements_get counts_from_def) (simp add: dict_get_def)

lemma Counter_entry:
  assumes "(k, v) \<in> set (Counter ws)"
  shows "v = int (count_list ws k) \<and> k \<in> set ws"
proof -
  have d: "distinct (map fst (Counter ws))"
    using Counter_distinct [of ws] by (simp add: dict_keys_def)
  from assms d have "map_of (Counter ws) k = Some v" by simp
  then have "dict_get (Counter ws) k 0 = v" by (simp add: dict_get_def)
  moreover have "k \<in> set (dict_keys (Counter ws))"
    using assms by (force simp: dict_keys_def)
  ultimately show ?thesis by (simp add: Counter_get Counter_keys)
qed

section \<open>Facts about binary64 rounding\<close>

lemma bit_length_bounds:
  "0 < n \<Longrightarrow> 2 ^ (bit_length n - 1) \<le> n \<and> n < 2 ^ bit_length n"
proof (induction n rule: bit_length.induct)
  case (1 n)
  show ?case
  proof (cases "n div 2 = 0")
    case True
    with 1 have "n = 1" by (auto simp: div_eq_0_iff)
    then show ?thesis by (simp add: bit_length.simps)
  next
    case False
    then have pos: "0 < n div 2" by simp
    have n0: "n \<noteq> 0" using 1 by simp
    from 1(1) [OF n0 pos]
    have lo: "2 ^ (bit_length (n div 2) - 1) \<le> n div 2"
      and hi: "n div 2 < 2 ^ bit_length (n div 2)" by simp_all
    have bl: "bit_length n = Suc (bit_length (n div 2))"
      using n0 by (subst bit_length.simps) simp
    have blpos: "0 < bit_length (n div 2)"
      using pos by (subst bit_length.simps) simp
    then have e: "2 ^ bit_length (n div 2) = 2 * (2::nat) ^ (bit_length (n div 2) - 1)"
      by (cases "bit_length (n div 2)") simp_all
    have "2 ^ (bit_length n - 1) \<le> 2 * (n div 2)"
      using lo e by (simp add: bl)
    moreover have "n < 2 * (n div 2) + 2" by presburger
    moreover have "2 * (n div 2) + 2 \<le> 2 ^ bit_length n"
      using hi by (simp add: bl)
    ultimately show ?thesis by linarith
  qed
qed

lemma real_pow2_le: "2 ^ k \<le> (n::nat) \<Longrightarrow> (2::real) ^ k \<le> real n"
proof -
  assume "2 ^ k \<le> n"
  then have "real (2 ^ k) \<le> real n" by (simp only: of_nat_le_iff)
  then show ?thesis by simp
qed

lemma real_less_pow2: "(n::nat) < 2 ^ k \<Longrightarrow> real n + 1 \<le> 2 ^ k"
proof -
  assume "n < 2 ^ k"
  then have "Suc n \<le> 2 ^ k" by simp
  then have "real (Suc n) \<le> real (2 ^ k)" by (simp only: of_nat_le_iff)
  then show ?thesis by simp
qed

lemma pow2_powr: "pow2 e = 2 powr (real_of_int e)"
proof (cases "0 \<le> e")
  case True
  then have "2 powr (real_of_int e) = 2 powr (real (nat e))" by simp
  also have "\<dots> = 2 ^ nat e" by (simp only: powr_realpow zero_less_numeral)
  finally show ?thesis using True by (simp add: pow2_def)
next
  case False
  then have "2 powr (real_of_int e) = 2 powr (- real (nat (- e)))" by simp
  also have "\<dots> = 1 / 2 powr (real (nat (- e)))" by (simp only: powr_minus_divide)
  also have "\<dots> = 1 / 2 ^ nat (- e)" by (simp only: powr_realpow zero_less_numeral)
  finally show ?thesis using False by (simp add: pow2_def)
qed

lemma pow2_pos: "0 < pow2 e"
  by (simp add: pow2_powr)

lemma pow2_add: "pow2 (a + b) = pow2 a * pow2 b"
  by (simp add: pow2_powr powr_add)

lemma pow2_mono: "a \<le> b \<Longrightarrow> pow2 a \<le> pow2 b"
  by (simp add: pow2_powr)

lemma pow2_0: "pow2 0 = 1"
  by (simp add: pow2_def)

lemma pow2_nat: "pow2 (int n) = 2 ^ n"
  by (simp add: pow2_def)

lemma pow2_Suc: "pow2 (e + 1) = 2 * pow2 e"
  by (simp add: pow2_powr powr_add)

lemma flog2_bounds:
  assumes "0 < x"
  shows "pow2 (flog2 x) \<le> x \<and> x < pow2 (flog2 x + 1)"
proof (cases "1 \<le> x")
  case True
  define N where "N = nat \<lfloor>x\<rfloor>"
  have Npos: "0 < N" using True by (simp add: N_def)
  have "real N = of_int \<lfloor>x\<rfloor>" using True by (simp add: N_def)
  then have Nx: "real N \<le> x" "x < real N + 1"
    by linarith+
  from bit_length_bounds [OF Npos]
  have lo: "2 ^ (bit_length N - 1) \<le> N" and hi: "N < 2 ^ bit_length N" by simp_all
  have blpos: "0 < bit_length N" using Npos by (subst bit_length.simps) simp
  have f: "flog2 x = int (bit_length N - 1)"
    using True blpos by (simp add: flog2_def N_def)
  have f1: "flog2 x + 1 = int (bit_length N)"
    using blpos by (simp add: f)
  have "(2::real) ^ (bit_length N - 1) \<le> real N" using lo by (rule real_pow2_le)
  then have a: "pow2 (flog2 x) \<le> x" unfolding f pow2_nat using Nx by linarith
  have "real N + 1 \<le> 2 ^ bit_length N" using hi by (rule real_less_pow2)
  then have b: "x < pow2 (flog2 x + 1)" unfolding f1 pow2_nat using Nx by linarith
  from a b show ?thesis ..
next
  case False
  define t where "t = 1 / x"
  have t1: "1 < t" using False assms by (simp add: t_def)
  define M where "M = nat (\<lceil>t\<rceil> - 1)"
  have c2: "2 \<le> \<lceil>t\<rceil>" using t1 by linarith
  have Mpos: "0 < M" using c2 by (simp add: M_def)
  have "real M = of_int \<lceil>t\<rceil> - 1" using c2 by (simp add: M_def)
  then have Mt: "real M < t" "t \<le> real M + 1"
    by linarith+
  from bit_length_bounds [OF Mpos]
  have lo: "2 ^ (bit_length M - 1) \<le> M" and hi: "M < 2 ^ bit_length M" by simp_all
  have blpos: "0 < bit_length M" using Mpos by (subst bit_length.simps) simp
  have f: "flog2 x = - int (bit_length M)"
    using False by (simp add: flog2_def M_def t_def)
  have "real M + 1 \<le> 2 ^ bit_length M" using hi by (rule real_less_pow2)
  then have "t \<le> 2 ^ bit_length M" using Mt by linarith
  then have "1 / x \<le> 2 ^ bit_length M" by (simp add: t_def)
  then have "1 / 2 ^ bit_length M \<le> x" using assms
    by (simp add: field_simps)
  then have a: "pow2 (flog2 x) \<le> x" using blpos by (simp add: f pow2_def)
  have "(2::real) ^ (bit_length M - 1) \<le> real M" using lo by (rule real_pow2_le)
  then have "2 ^ (bit_length M - 1) < t" using Mt by linarith
  then have "2 ^ (bit_length M - 1) < 1 / x" by (simp add: t_def)
  then have xx: "x < 1 / 2 ^ (bit_length M - 1)" using assms
    by (simp add: field_simps)
  have "flog2 x + 1 = - int (bit_length M - 1)" using blpos by (simp add: f)
  then have "pow2 (flog2 x + 1) = 1 / 2 ^ (bit_length M - 1)"
    by (cases "bit_length M - 1 = 0") (simp_all add: pow2_def)
  with xx have b: "x < pow2 (flog2 x + 1)" by simp
  from a b show ?thesis ..
qed

lemma flog2_unique:
  assumes "pow2 e \<le> x" "x < pow2 (e + 1)"
  shows "flog2 x = e"
proof -
  have xpos: "0 < x" using assms(1) pow2_pos [of e] by linarith
  from flog2_bounds [OF xpos] have b: "pow2 (flog2 x) \<le> x" "x < pow2 (flog2 x + 1)" by simp_all
  have "pow2 e < pow2 (flog2 x + 1)" using assms(1) b(2) by linarith
  then have "e < flog2 x + 1" by (simp add: pow2_powr)
  moreover have "pow2 (flog2 x) < pow2 (e + 1)" using assms(2) b(1) by linarith
  then have "flog2 x < e + 1" by (simp add: pow2_powr)
  ultimately show ?thesis by linarith
qed

lemma rhe_err: "\<bar>of_int (round_half_even y) - y\<bar> \<le> 1 / 2"
  unfolding round_half_even_def Let_def by (simp; linarith)

lemma rhe_of_int: "round_half_even (of_int k) = k"
  by (simp add: round_half_even_def)

lemma rhe_floor: "\<lfloor>y\<rfloor> \<le> round_half_even y \<and> round_half_even y \<le> \<lfloor>y\<rfloor> + 1"
  by (simp add: round_half_even_def Let_def)

lemma rhe_mono:
  assumes "y \<le> z"
  shows "round_half_even y \<le> round_half_even z"
proof (cases "\<lfloor>y\<rfloor> = \<lfloor>z\<rfloor>")
  case True
  then show ?thesis using assms
    unfolding round_half_even_def Let_def by (simp; linarith)
next
  case False
  then have "\<lfloor>y\<rfloor> + 1 \<le> \<lfloor>z\<rfloor>" using floor_mono [OF assms] by linarith
  then show ?thesis using rhe_floor [of y] rhe_floor [of z] by linarith
qed

lemma rhe_ge: "of_int k \<le> y \<Longrightarrow> k \<le> round_half_even y"
  using rhe_mono [of "of_int k" y] by (simp add: rhe_of_int)

lemma rhe_le: "y \<le> of_int k \<Longrightarrow> round_half_even y \<le> k"
  using rhe_mono [of y "of_int k"] by (simp add: rhe_of_int)

lemma isqrt_small: "n < 4 \<Longrightarrow> isqrt n = (if n = 0 then 0 else 1)"
  by (subst isqrt.simps) simp

lemma isqrt_step:
  "\<not> n < 4 \<Longrightarrow> isqrt n =
     (if (2 * isqrt (n div 4) + 1) * (2 * isqrt (n div 4) + 1) \<le> n
      then 2 * isqrt (n div 4) + 1 else 2 * isqrt (n div 4))"
  by (subst isqrt.simps) (simp add: Let_def)

lemma isqrt_bounds: "isqrt n * isqrt n \<le> n \<and> n < (isqrt n + 1) * (isqrt n + 1)"
proof (induction n rule: isqrt.induct)
  case (1 n)
  show ?case
  proof (cases "n < 4")
    case True
    then have "n = 0 \<or> n = 1 \<or> n = 2 \<or> n = 3" by linarith
    then show ?thesis using True by (auto simp: isqrt_small)
  next
    case False
    define q where "q = isqrt (n div 4)"
    have "q * q \<le> n div 4 \<and> n div 4 < (q + 1) * (q + 1)"
      unfolding q_def by (rule 1 [OF False])
    then have lo: "q * q \<le> n div 4" and hi: "n div 4 < (q + 1) * (q + 1)"
      by simp_all
    have e: "isqrt n = (if (2 * q + 1) * (2 * q + 1) \<le> n then 2 * q + 1 else 2 * q)"
      unfolding q_def using False by (rule isqrt_step)
    have a: "4 * (q * q) \<le> n" using lo by linarith
    have "n div 4 + 1 \<le> (q + 1) * (q + 1)" using hi by linarith
    then have "4 * (n div 4) + 4 \<le> 4 * ((q + 1) * (q + 1))" by linarith
    moreover have "n < 4 * (n div 4) + 4" by presburger
    ultimately have b: "n < 4 * ((q + 1) * (q + 1))" by linarith
    show ?thesis
    proof (cases "(2 * q + 1) * (2 * q + 1) \<le> n")
      case True
      then have "isqrt n = 2 * q + 1" by (simp add: e)
      moreover have "(2 * q + 1 + 1) * (2 * q + 1 + 1) = 4 * ((q + 1) * (q + 1))"
        by (simp add: algebra_simps)
      ultimately show ?thesis using True b by simp
    next
      case False
      then have "isqrt n = 2 * q" by (simp add: e)
      moreover have "2 * q * (2 * q) = 4 * (q * q)" by simp
      ultimately show ?thesis using False a by simp
    qed
  qed
qed

lemma pow2_less_iff: "pow2 a < pow2 b \<longleftrightarrow> a < b"
  by (simp add: pow2_powr)

lemma round_double_pos:
  "0 < x \<Longrightarrow> round_double x =
     of_int (round_half_even (x / pow2 (max (flog2 x - 52) (- 1074))))
       * pow2 (max (flog2 x - 52) (- 1074))"
  by (simp add: round_double_def Let_def)

lemma round_double_nonneg: "0 \<le> x \<Longrightarrow> 0 \<le> round_double x"
proof (cases "x = 0")
  case True
  then show ?thesis by (simp add: round_double_def)
next
  case False
  assume "0 \<le> x"
  with False have pos: "0 < x" by simp
  define e where "e = max (flog2 x - 52) (- 1074)"
  have "of_int 0 \<le> x / pow2 e" using pos pow2_pos [of e] by simp
  then have "0 \<le> round_half_even (x / pow2 e)" by (rule rhe_ge)
  then show ?thesis using pow2_pos [of e] pos
    by (simp add: round_double_pos e_def)
qed

lemma round_double_lower:
  assumes "0 < x"
  shows "pow2 (max (flog2 x) (- 1074)) \<le> round_double x \<or> flog2 x < - 1074"
proof (cases "flog2 x < - 1074")
  case True
  then show ?thesis by simp
next
  case False
  define e where "e = max (flog2 x - 52) (- 1074)"
  define d where "d = flog2 x - e"
  have d0: "0 \<le> d" using False by (simp add: d_def e_def)
  have "pow2 (flog2 x) \<le> x" using flog2_bounds [OF assms] by simp
  moreover have "pow2 (flog2 x) = pow2 d * pow2 e" by (simp add: d_def flip: pow2_add)
  ultimately have "pow2 d \<le> x / pow2 e" using pow2_pos [of e] by (simp add: field_simps)
  moreover have "pow2 d = of_int (2 ^ nat d)" using d0 by (simp add: pow2_def)
  ultimately have "2 ^ nat d \<le> round_half_even (x / pow2 e)" using rhe_ge by simp
  then have "of_int (2 ^ nat d) \<le> (of_int (round_half_even (x / pow2 e)) :: real)"
    by (simp only: of_int_le_iff)
  then have "pow2 d * pow2 e \<le> of_int (round_half_even (x / pow2 e)) * pow2 e"
    using pow2_pos [of e] d0 by (simp add: pow2_def)
  moreover have "pow2 d * pow2 e = pow2 (flog2 x)" by (simp add: d_def flip: pow2_add)
  moreover have "max (flog2 x) (- 1074) = flog2 x" using False by simp
  ultimately show ?thesis using assms by (simp add: round_double_pos e_def)
qed

lemma round_double_upper:
  assumes "0 < x"
  shows "round_double x \<le> pow2 (max (flog2 x + 1) (- 1074))"
proof -
  define e where "e = max (flog2 x - 52) (- 1074)"
  define d where "d = max (flog2 x + 1) (- 1074) - e"
  have d0: "0 \<le> d" by (simp add: d_def e_def)
  have "x < pow2 (flog2 x + 1)" using flog2_bounds [OF assms] by simp
  also have "\<dots> \<le> pow2 (max (flog2 x + 1) (- 1074))" by (rule pow2_mono) simp
  also have "\<dots> = pow2 d * pow2 e" by (simp add: d_def flip: pow2_add)
  finally have "x / pow2 e \<le> pow2 d" using pow2_pos [of e] by (simp add: field_simps)
  moreover have "pow2 d = of_int (2 ^ nat d)" using d0 by (simp add: pow2_def)
  ultimately have "round_half_even (x / pow2 e) \<le> 2 ^ nat d" using rhe_le by simp
  then have "(of_int (round_half_even (x / pow2 e)) :: real) \<le> of_int (2 ^ nat d)"
    by (simp only: of_int_le_iff)
  then have "of_int (round_half_even (x / pow2 e)) * pow2 e \<le> pow2 d * pow2 e"
    using pow2_pos [of e] d0 by (simp add: pow2_def)
  moreover have "pow2 d * pow2 e = pow2 (max (flog2 x + 1) (- 1074))"
    by (simp add: d_def flip: pow2_add)
  ultimately show ?thesis using assms by (simp add: round_double_pos e_def)
qed

lemma flog2_mono:
  assumes "0 < x" "x \<le> z"
  shows "flog2 x \<le> flog2 z"
proof -
  have zpos: "0 < z" using assms by linarith
  have "pow2 (flog2 x) \<le> x" using flog2_bounds [OF assms(1)] by simp
  also have "x \<le> z" by fact
  also have "z < pow2 (flog2 z + 1)" using flog2_bounds [OF zpos] by simp
  finally have "flog2 x < flog2 z + 1" by (simp only: pow2_less_iff)
  then show ?thesis by simp
qed

lemma round_double_mono:
  assumes "0 < x" "x \<le> z"
  shows "round_double x \<le> round_double z"
proof -
  have zpos: "0 < z" using assms by linarith
  define e where "e = max (flog2 x - 52) (- 1074)"
  define e' where "e' = max (flog2 z - 52) (- 1074)"
  have fm: "flog2 x \<le> flog2 z" using assms by (rule flog2_mono)
  show ?thesis
  proof (cases "e = e'")
    case True
    have "x / pow2 e \<le> z / pow2 e" using assms(2) pow2_pos [of e]
      by (simp add: divide_right_mono)
    then have "round_half_even (x / pow2 e) \<le> round_half_even (z / pow2 e)"
      by (rule rhe_mono)
    then have "(of_int (round_half_even (x / pow2 e)) :: real)
        \<le> of_int (round_half_even (z / pow2 e))" by (simp only: of_int_le_iff)
    then have "of_int (round_half_even (x / pow2 e)) * pow2 e
        \<le> of_int (round_half_even (z / pow2 e)) * pow2 e"
      using pow2_pos [of e] by simp
    then show ?thesis using True assms(1) zpos
      by (simp add: round_double_pos e_def e'_def)
  next
    case False
    then have lt: "flog2 x < flog2 z" and big: "- 1074 < flog2 z - 52"
      using fm by (auto simp: e_def e'_def max_def split: if_splits)
    have "round_double x \<le> pow2 (max (flog2 x + 1) (- 1074))"
      using assms(1) by (rule round_double_upper)
    also have "\<dots> \<le> pow2 (flog2 z)" using lt big by (intro pow2_mono) simp
    also have "\<dots> = pow2 (max (flog2 z) (- 1074))" using big by simp
    also have "\<dots> \<le> round_double z" using round_double_lower [OF zpos] big by auto
    finally show ?thesis .
  qed
qed

lemma isqrt_real:
  assumes "0 \<le> y"
  shows "real (isqrt (nat \<lfloor>y\<rfloor>)) \<le> sqrt y \<and> sqrt y < real (isqrt (nat \<lfloor>y\<rfloor>)) + 1"
proof -
  define n where "n = nat \<lfloor>y\<rfloor>"
  define r where "r = isqrt n"
  have "real n = of_int \<lfloor>y\<rfloor>" using assms by (simp add: n_def)
  then have ny: "real n \<le> y" "y < real n + 1"
    by linarith+
  from isqrt_bounds [of n] have lo: "r * r \<le> n" and hi: "n < (r + 1) * (r + 1)"
    by (simp_all add: r_def)
  have "real (r * r) \<le> real n" using lo by (simp only: of_nat_le_iff)
  then have "(real r)\<^sup>2 \<le> y" using ny by (simp add: power2_eq_square)
  then have a: "real r \<le> sqrt y" by (rule real_le_rsqrt)
  have "Suc n \<le> (r + 1) * (r + 1)" using hi by simp
  then have "real (Suc n) \<le> real ((r + 1) * (r + 1))" by (simp only: of_nat_le_iff)
  then have "real n + 1 \<le> (real r + 1)\<^sup>2" by (simp add: power2_eq_square algebra_simps)
  then have "y < (real r + 1)\<^sup>2" using ny by linarith
  then have b: "sqrt y < real r + 1" by (intro real_less_lsqrt) simp_all
  from a b show ?thesis by (simp add: r_def n_def)
qed

lemma float_sqrt_err:
  assumes "0 < x"
  shows "\<bar>float_sqrt x - sqrt x\<bar> \<le> sqrt x / 2 ^ 53"
proof -
  define k where "k = flog2 x div 2 - 52"
  define P where "P = pow2 k"
  define y where "y = x / pow2 (2 * k)"
  define r where "r = int (isqrt (nat \<lfloor>y\<rfloor>))"
  define m where "m = (if y < (of_int r + 1 / 2)\<^sup>2 then r
                       else if (of_int r + 1 / 2)\<^sup>2 < y then r + 1
                       else if even r then r else r + 1)"
  have fs: "float_sqrt x = of_int m * P"
    using assms by (simp add: float_sqrt_def Let_def m_def r_def y_def k_def P_def)
  have Ppos: "0 < P" by (simp add: P_def pow2_pos)
  have PP: "pow2 (2 * k) = P * P"
    using pow2_add [of k k] by (simp add: P_def)
  have xy: "x = y * (P * P)" using Ppos by (simp add: y_def PP)
  have ypos: "0 \<le> y" using assms Ppos by (simp add: y_def PP)
  have "2 * k + 104 \<le> flog2 x" unfolding k_def by presburger
  then have "pow2 (2 * k + 104) \<le> pow2 (flog2 x)" by (rule pow2_mono)
  also have "\<dots> \<le> x" using flog2_bounds [OF assms] by simp
  finally have "pow2 104 * pow2 (2 * k) \<le> x" by (simp add: pow2_add mult.commute)
  then have "pow2 104 \<le> y" unfolding y_def
    using pow2_pos [of "2 * k"] by (simp only: pos_le_divide_eq)
  then have "(2 ^ 52)\<^sup>2 \<le> y" by (simp add: pow2_def)
  then have big: "2 ^ 52 \<le> sqrt y" by (rule real_le_rsqrt)
  from isqrt_real [OF ypos] have rlo: "of_int r \<le> sqrt y" and rhi: "sqrt y < of_int r + 1"
    by (simp_all add: r_def)
  have rpos: "(0::real) \<le> of_int r" by (simp add: r_def)
  have near: "\<bar>of_int m - sqrt y\<bar> \<le> 1 / 2"
  proof (cases "y < (of_int r + 1 / 2)\<^sup>2")
    case True
    then have "sqrt y < of_int r + 1 / 2" using rpos by (intro real_less_lsqrt) simp_all
    then show ?thesis using True rlo by (simp add: m_def)
  next
    case False
    show ?thesis
    proof (cases "(of_int r + 1 / 2)\<^sup>2 < y")
      case True
      then have "of_int r + 1 / 2 < sqrt y" by (rule real_less_rsqrt)
      moreover have "m = r + 1" using True False by (simp add: m_def)
      ultimately show ?thesis using rhi by simp
    next
      case F2: False
      with False have "y = (of_int r + 1 / 2)\<^sup>2" by simp
      then have "sqrt y = of_int r + 1 / 2" using rpos by (simp add: real_sqrt_abs)
      moreover have "m = r \<or> m = r + 1" by (simp add: m_def)
      ultimately show ?thesis by auto
    qed
  qed
  have sx: "sqrt x = sqrt y * P"
    using Ppos by (simp add: xy real_sqrt_mult)
  have "float_sqrt x - sqrt x = (of_int m - sqrt y) * P"
    by (simp add: fs sx algebra_simps)
  then have "\<bar>float_sqrt x - sqrt x\<bar> = \<bar>of_int m - sqrt y\<bar> * P"
    using Ppos by (simp add: abs_mult)
  also have "\<dots> \<le> 1 / 2 * P" using near Ppos by (intro mult_right_mono) simp_all
  also have "\<dots> \<le> (sqrt y / 2 ^ 53) * P" using big Ppos by (intro mult_right_mono) simp_all
  also have "\<dots> = sqrt x / 2 ^ 53" by (simp add: sx)
  finally show ?thesis .
qed

section \<open>The body of calculate_cosine_similarity\<close>

lemma dot_zip:
  "sum_list (map (\<lambda>(v1, v2). v1 * v2) (zip (map f ws) (map g ws)))
     = sum_list (map (\<lambda>w. f w * g w) ws)"
  by (induction ws) simp_all

lemma cosine_over_sums:
  "cosine_over ws vec1 vec2 =
     cosine_of_sums (sum_list (map (\<lambda>w. dict_get vec1 w 0 * dict_get vec2 w 0) ws))
       (sum_list (map (\<lambda>w. dict_get vec1 w 0 * dict_get vec1 w 0) ws))
       (sum_list (map (\<lambda>w. dict_get vec2 w 0 * dict_get vec2 w 0) ws))"
proof -
  have sq: "sum_list (map (\<lambda>v. v * v) (map (\<lambda>word. dict_get vec word 0) ws))
      = sum_list (map (\<lambda>w. dict_get vec w 0 * dict_get vec w 0) ws)" for vec :: "'a pydict"
    by (simp add: comp_def)
  show ?thesis
    unfolding cosine_over_def cosine_of_sums_def Let_def dot_zip sq ..
qed

lemma cosine_over_vocabulary:
  assumes "distinct ws" "set ws = vocabulary vec1 vec2"
  shows "cosine_over ws vec1 vec2 =
     cosine_of_sums (dot_product vec1 vec2)
       (sum_squares (vocabulary vec1 vec2) vec1) (sum_squares (vocabulary vec1 vec2) vec2)"
  using assms
  by (simp add: cosine_over_sums sum_list_distinct_conv_sum_set dot_product_def
      sum_squares_def)

lemma calculate_cosine_similarity_sums:
  "calculate_cosine_similarity vec1 vec2 =
     cosine_of_sums (dot_product vec1 vec2)
       (sum_squares (vocabulary vec1 vec2) vec1) (sum_squares (vocabulary vec1 vec2) vec2)"
  unfolding calculate_cosine_similarity_def
  by (rule cosine_over_vocabulary) (simp_all add: vocabulary_def)

lemma sum_squares_nonneg: "0 \<le> sum_squares V vec"
  unfolding sum_squares_def by (rule sum_nonneg) simp

lemma round_double_0: "round_double 0 = 0"
  by (simp add: round_double_def)

lemma flog2_pow2: "flog2 (pow2 e) = e"
  by (rule flog2_unique) (simp_all add: pow2_Suc pow2_pos)

lemma round_double_pow2:
  assumes "- 1074 \<le> e"
  shows "round_double (pow2 e) = pow2 e"
proof -
  define d where "d = max (e - 52) (- 1074)"
  have d: "d \<le> e" using assms by (simp add: d_def)
  have "pow2 e = pow2 (e - d) * pow2 d" by (simp flip: pow2_add)
  then have "pow2 e / pow2 d = pow2 (e - d)" using pow2_pos [of d] by simp
  also have "\<dots> = of_int (2 ^ nat (e - d))" using d by (simp add: pow2_def)
  finally have q: "pow2 e / pow2 d = of_int (2 ^ nat (e - d))" .
  have "round_double (pow2 e) = of_int (round_half_even (pow2 e / pow2 d)) * pow2 d"
    using pow2_pos [of e] by (simp add: round_double_pos flog2_pow2 d_def)
  also have "\<dots> = of_int (2 ^ nat (e - d)) * pow2 d"
    by (simp only: q rhe_of_int)
  also have "\<dots> = pow2 (e - d) * pow2 d" using d by (simp add: pow2_def)
  also have "\<dots> = pow2 e" by (simp flip: pow2_add)
  finally show ?thesis .
qed

lemma round_double_ge_pow2:
  assumes "- 1074 \<le> e" "pow2 e \<le> x"
  shows "pow2 e \<le> round_double x"
  using round_double_mono [OF pow2_pos assms(2)] round_double_pow2 [OF assms(1)] by simp

lemma round_double_le_pow2:
  assumes "- 1074 \<le> e" "0 \<le> x" "x \<le> pow2 e"
  shows "round_double x \<le> pow2 e"
proof (cases "x = 0")
  case True
  then show ?thesis using pow2_pos [of e] by (simp add: round_double_0)
next
  case False
  then have "0 < x" using assms(2) by simp
  from round_double_mono [OF this assms(3)] round_double_pow2 [OF assms(1)]
  show ?thesis by simp
qed

lemma float_of_int_nonneg:
  assumes "0 \<le> n" "float_of_int n = Inr x"
  shows "0 \<le> x \<and> (x = 0 \<longleftrightarrow> n = 0) \<and> (n \<noteq> 0 \<longrightarrow> 1 \<le> x)"
proof -
  have x: "x = round_double (of_int n)"
    using assms(2) by (simp add: float_of_int_def Let_def split: if_splits)
  show ?thesis
  proof (cases "n = 0")
    case True
    then show ?thesis by (simp add: x round_double_0)
  next
    case False
    then have "pow2 0 \<le> of_int n" using assms(1) by (simp add: pow2_0)
    then have "pow2 0 \<le> round_double (of_int n)" by (intro round_double_ge_pow2) simp_all
    then show ?thesis using False by (simp add: x pow2_0)
  qed
qed

lemma float_of_int_error: "float_of_int n = Inl e \<Longrightarrow> e = OverflowError"
  by (simp add: float_of_int_def Let_def split: if_splits)

lemma float_sqrt_0: "float_sqrt 0 = 0"
  by (simp add: float_sqrt_def)

lemma float_sqrt_bounds:
  assumes "1 \<le> x"
  shows "1 / 2 \<le> float_sqrt x \<and> float_sqrt x \<le> 2 * sqrt x"
proof -
  have pos: "0 < x" using assms by simp
  have s1: "1 \<le> sqrt x" using assms by simp
  have "sqrt x / 2 ^ 53 \<le> sqrt x / 2" using s1 by (intro divide_left_mono) simp_all
  with float_sqrt_err [OF pos] have "\<bar>float_sqrt x - sqrt x\<bar> \<le> sqrt x / 2" by linarith
  then show ?thesis using s1 by linarith
qed

lemma math_sqrt_error:
  assumes "0 \<le> n" "math_sqrt n = Inl e"
  shows "e = OverflowError"
proof (cases "float_of_int n")
  case (Inl e')
  then show ?thesis using assms(2) float_of_int_error [OF Inl] by (simp add: math_sqrt_def)
next
  case (Inr x)
  from float_of_int_nonneg [OF assms(1) Inr] have "0 \<le> x" by simp
  then show ?thesis using assms(2) Inr by (simp add: math_sqrt_def)
qed

lemma math_sqrt_value:
  assumes "0 \<le> n" "math_sqrt n = Inr m"
  shows "(m = 0 \<longleftrightarrow> n = 0) \<and> (n \<noteq> 0 \<longrightarrow> 1 / 2 \<le> m)"
proof (cases "float_of_int n")
  case (Inl e')
  then show ?thesis using assms(2) by (simp add: math_sqrt_def)
next
  case (Inr x)
  from float_of_int_nonneg [OF assms(1) Inr]
  have x: "0 \<le> x" "x = 0 \<longleftrightarrow> n = 0" "n \<noteq> 0 \<longrightarrow> 1 \<le> x" by simp_all
  have m: "m = float_sqrt x" using assms(2) Inr x(1) by (simp add: math_sqrt_def)
  show ?thesis
  proof (cases "n = 0")
    case True
    then show ?thesis using x by (simp add: m float_sqrt_0)
  next
    case False
    then have "1 \<le> x" using x by simp
    from float_sqrt_bounds [OF this] show ?thesis using False by (simp add: m)
  qed
qed

lemma float_mul_nonzero:
  assumes "1 / 2 \<le> a" "1 / 2 \<le> b"
  shows "float_mul a b = PosInf \<or> (\<exists>r. float_mul a b = Finite r \<and> 1 / 4 \<le> r)"
proof -
  have "1 / 2 * (1 / 2) \<le> a * b" using assms by (intro mult_mono) simp_all
  then have "pow2 (- 2) \<le> a * b" by (simp add: pow2_def)
  then have "pow2 (- 2) \<le> round_double (a * b)" by (intro round_double_ge_pow2) simp_all
  then have "1 / 4 \<le> round_double (a * b)" by (simp add: pow2_def)
  then show ?thesis by (simp add: float_mul_def float_overflow_def)
qed

lemma float_mul_commute: "float_mul a b = float_mul b a"
  by (simp add: float_mul_def mult.commute)

lemma int_div_float_no_zero_division:
  assumes "y = PosInf \<or> (\<exists>r. y = Finite r \<and> 1 / 4 \<le> r)"
  shows "int_div_float d y \<noteq> Inl ZeroDivisionError"
  using assms float_of_int_error [of d]
  by (auto simp: int_div_float_def split: sum.splits pyfloat.splits)

lemma cosine_of_sums_no_zero_division:
  assumes "0 \<le> n1" "0 \<le> n2"
  shows "cosine_of_sums d n1 n2 \<noteq> Inl ZeroDivisionError"
proof (cases "math_sqrt n1")
  case (Inl e)
  then show ?thesis using math_sqrt_error [OF assms(1) Inl] by (simp add: cosine_of_sums_def)
next
  case m1: (Inr m1)
  show ?thesis
  proof (cases "math_sqrt n2")
    case (Inl e)
    then show ?thesis using m1 math_sqrt_error [OF assms(2) Inl]
      by (simp add: cosine_of_sums_def)
  next
    case m2: (Inr m2)
    show ?thesis
    proof (cases "m1 = 0 \<or> m2 = 0")
      case True
      then show ?thesis using m1 m2 by (simp add: cosine_of_sums_def)
    next
      case False
      then have "1 / 2 \<le> m1" "1 / 2 \<le> m2"
        using math_sqrt_value [OF assms(1) m1] math_sqrt_value [OF assms(2) m2] by auto
      from int_div_float_no_zero_division [OF float_mul_nonzero [OF this]]
      show ?thesis using m1 m2 False by (simp add: cosine_of_sums_def)
    qed
  qed
qed

lemma cosine_of_sums_commute:
  assumes "0 \<le> n1" "0 \<le> n2"
  shows "cosine_of_sums d n1 n2 = cosine_of_sums d n2 n1"
  using math_sqrt_error [OF assms(1)] math_sqrt_error [OF assms(2)]
  by (auto simp: cosine_of_sums_def float_mul_commute split: sum.splits)

section \<open>Frequency vectors stay in the double range\<close>

lemma dict_get_nonneg:
  "list_all (\<lambda>(k, v). 0 \<le> v) vec \<Longrightarrow> 0 \<le> dict_get vec w 0"
  by (induction vec) (auto simp: dict_get_def)

lemma dict_get_notin: "w \<notin> set (dict_keys vec) \<Longrightarrow> dict_get vec w 0 = 0"
  by (simp add: dict_get_def dict_keys_def map_of_eq_None_iff [THEN iffD2])

lemma dict_get_Cons:
  "dict_get ((k, v) # vec) w 0 = (if w = k then v else dict_get vec w 0)"
  by (simp add: dict_get_def)

lemma sum_dict_get_le:
  assumes "finite V"
  shows "list_all (\<lambda>(k, v). 0 \<le> v) vec \<Longrightarrow> (\<Sum>w\<in>V. dict_get vec w 0) \<le> sum_list (map snd vec)"
proof (induction vec)
  case Nil
  then show ?case by (simp add: dict_get_def)
next
  case (Cons kv vec)
  obtain k v where kv: "kv = (k, v)" by (cases kv)
  from Cons.prems have v: "0 \<le> v" and rest: "list_all (\<lambda>(k, v). 0 \<le> v) vec"
    by (simp_all add: kv)
  have g: "0 \<le> dict_get vec w 0" for w using rest by (rule dict_get_nonneg)
  have "(\<Sum>w\<in>V. dict_get (kv # vec) w 0)
      \<le> (\<Sum>w\<in>V. (if w = k then v else 0) + dict_get vec w 0)"
    using g by (intro sum_mono) (simp add: kv dict_get_Cons)
  also have "\<dots> = (\<Sum>w\<in>V. if w = k then v else 0) + (\<Sum>w\<in>V. dict_get vec w 0)"
    by (rule sum.distrib)
  also have "(\<Sum>w\<in>V. if w = k then v else 0) = (if k \<in> V then v else 0)"
    using assms by (simp add: sum.delta')
  also have "(if k \<in> V then v else 0) \<le> v" using v by simp
  finally have "(\<Sum>w\<in>V. dict_get (kv # vec) w 0) \<le> v + (\<Sum>w\<in>V. dict_get vec w 0)"
    by simp
  with Cons.IH [OF rest] show ?case by (simp add: kv)
qed

lemma sum_prod_le:
  fixes f g :: "'a \<Rightarrow> int"
  assumes "finite V" "\<And>w. 0 \<le> f w" "\<And>w. 0 \<le> g w"
  shows "(\<Sum>w\<in>V. f w * g w) \<le> (\<Sum>w\<in>V. f w) * (\<Sum>w\<in>V. g w)"
  using assms(1)
proof (induction V)
  case empty
  then show ?case by simp
next
  case (insert x V)
  have F: "0 \<le> sum f V" and G: "0 \<le> sum g V" using assms(2,3) by (simp_all add: sum_nonneg)
  have "(f x + sum f V) * (g x + sum g V)
      = f x * g x + f x * sum g V + sum f V * g x + sum f V * sum g V"
    by (simp add: algebra_simps)
  moreover have "0 \<le> f x * sum g V" using assms(2) G by simp
  moreover have "0 \<le> sum f V * g x" using assms(3) F by simp
  ultimately have "f x * g x + sum f V * sum g V \<le> (f x + sum f V) * (g x + sum g V)"
    by linarith
  with insert show ?case by simp
qed

lemma finite_vocabulary: "finite (vocabulary vec1 vec2)"
  by (simp add: vocabulary_def)

lemma frequency_total:
  assumes "frequency_vector vec" "finite V"
  shows "0 \<le> (\<Sum>w\<in>V. dict_get vec w 0) \<and> (\<Sum>w\<in>V. dict_get vec w 0) < 2 ^ 63"
proof -
  have nn: "list_all (\<lambda>(k, v). 0 \<le> v) vec" and t: "sum_list (map snd vec) < 2 ^ 63"
    using assms(1) by (simp_all add: frequency_vector_def)
  have "0 \<le> (\<Sum>w\<in>V. dict_get vec w 0)" using dict_get_nonneg [OF nn] by (intro sum_nonneg)
  moreover have "(\<Sum>w\<in>V. dict_get vec w 0) < 2 ^ 63"
    using sum_dict_get_le [OF assms(2) nn] t by linarith
  ultimately show ?thesis ..
qed

lemma small_product:
  fixes a b :: int
  assumes "0 \<le> a" "a < 2 ^ 63" "0 \<le> b" "b < 2 ^ 63"
  shows "a * b < 2 ^ 126"
proof -
  have "a * b \<le> (2 ^ 63 - 1) * (2 ^ 63 - 1)" using assms by (intro mult_mono) simp_all
  also have "\<dots> < (2 ^ 126 :: int)" by simp
  finally show ?thesis .
qed

lemma frequency_dot_bound:
  assumes "frequency_vector vec1" "frequency_vector vec2" "finite V"
  shows "0 \<le> (\<Sum>w\<in>V. dict_get vec1 w 0 * dict_get vec2 w 0)
       \<and> (\<Sum>w\<in>V. dict_get vec1 w 0 * dict_get vec2 w 0) < 2 ^ 126"
proof -
  have nn1: "list_all (\<lambda>(k, v). 0 \<le> v) vec1" and nn2: "list_all (\<lambda>(k, v). 0 \<le> v) vec2"
    using assms(1,2) by (simp_all add: frequency_vector_def)
  have g1: "0 \<le> dict_get vec1 w 0" for w using nn1 by (rule dict_get_nonneg)
  have g2: "0 \<le> dict_get vec2 w 0" for w using nn2 by (rule dict_get_nonneg)
  have lo: "0 \<le> (\<Sum>w\<in>V. dict_get vec1 w 0 * dict_get vec2 w 0)"
    using g1 g2 by (intro sum_nonneg) simp
  have "(\<Sum>w\<in>V. dict_get vec1 w 0 * dict_get vec2 w 0)
      \<le> (\<Sum>w\<in>V. dict_get vec1 w 0) * (\<Sum>w\<in>V. dict_get vec2 w 0)"
    using assms(3) g1 g2 by (rule sum_prod_le)
  also have "\<dots> < 2 ^ 126"
    using frequency_total [OF assms(1,3)] frequency_total [OF assms(2,3)]
    by (intro small_product) simp_all
  finally show ?thesis using lo by simp
qed

lemma frequency_sum_squares:
  assumes "frequency_vector vec" "finite V"
  shows "sum_squares V vec < 2 ^ 126"
  using frequency_dot_bound [OF assms(1) assms(1) assms(2)] by (simp add: sum_squares_def)

lemma frequency_dot_product:
  assumes "frequency_vector vec1" "frequency_vector vec2"
  shows "0 \<le> dot_product vec1 vec2 \<and> dot_product vec1 vec2 < 2 ^ 126"
  using frequency_dot_bound [OF assms finite_vocabulary] by (simp add: dot_product_def)

lemma float_of_int_small:
  assumes "0 \<le> n" "n < 2 ^ 126"
  shows "\<exists>x. float_of_int n = Inr x \<and> 0 \<le> x \<and> x \<le> 2 ^ 126"
proof -
  have r0: "0 \<le> round_double (of_int n)" using assms(1) by (intro round_double_nonneg) simp
  have "n \<le> 2 ^ 126" using assms(2) by simp
  then have "real_of_int n \<le> of_int (2 ^ 126)" by (simp only: of_int_le_iff)
  then have "real_of_int n \<le> pow2 126" by (simp add: pow2_def)
  then have "round_double (of_int n) \<le> pow2 126"
    using assms(1) by (intro round_double_le_pow2) simp_all
  then have r1: "round_double (of_int n) \<le> 2 ^ 126" by (simp add: pow2_def)
  have "(2::real) ^ 126 < 2 ^ 1024" by simp
  with r0 r1 have "\<not> 2 ^ 1024 \<le> \<bar>round_double (of_int n)\<bar>" by linarith
  then show ?thesis using r0 r1 by (simp add: float_of_int_def Let_def)
qed

lemma math_sqrt_small:
  assumes "0 \<le> n" "n < 2 ^ 126"
  shows "\<exists>m. math_sqrt n = Inr m \<and> 0 \<le> m \<and> m \<le> 2 ^ 64"
proof -
  from float_of_int_small [OF assms] obtain x
    where x: "float_of_int n = Inr x" "0 \<le> x" "x \<le> 2 ^ 126" by blast
  have m: "math_sqrt n = Inr (float_sqrt x)" using x by (simp add: math_sqrt_def)
  show ?thesis
  proof (cases "n = 0")
    case True
    then have "x = 0" using float_of_int_nonneg [OF assms(1) x(1)] by simp
    then show ?thesis using m by (simp add: float_sqrt_0)
  next
    case False
    then have x1: "1 \<le> x" using float_of_int_nonneg [OF assms(1) x(1)] by simp
    have "sqrt x \<le> sqrt ((2 ^ 63)\<^sup>2)" using x(3) by (simp only: real_sqrt_le_iff) simp
    then have "sqrt x \<le> 2 ^ 63" by simp
    with float_sqrt_bounds [OF x1] show ?thesis using m by simp
  qed
qed

lemma float_mul_small:
  assumes "1 / 2 \<le> a" "a \<le> 2 ^ 64" "1 / 2 \<le> b" "b \<le> 2 ^ 64"
  shows "\<exists>r. float_mul a b = Finite r \<and> 1 / 4 \<le> r"
proof -
  have "a * b \<le> 2 ^ 64 * 2 ^ 64" using assms by (intro mult_mono) simp_all
  then have "a * b \<le> pow2 128" by (simp add: pow2_def)
  moreover have "0 \<le> a * b" using assms by simp
  ultimately have "round_double (a * b) \<le> pow2 128" by (intro round_double_le_pow2) simp_all
  then have "round_double (a * b) < 2 ^ 1024" by (simp add: pow2_def)
  then have "float_mul a b = Finite (round_double (a * b))"
    using round_double_nonneg [of "a * b"] assms
    by (simp add: float_mul_def float_overflow_def)
  moreover from float_mul_nonzero [OF assms(1,3)] have "float_mul a b \<noteq> Finite r \<or> 1 / 4 \<le> r" for r
    by auto
  ultimately show ?thesis by auto
qed

lemma int_div_float_small:
  assumes "0 \<le> d" "d < 2 ^ 126" "1 / 4 \<le> b"
  shows "\<exists>r. int_div_float d (Finite b) = Inr (Finite r) \<and> 0 \<le> r \<and> (d = 0 \<longrightarrow> r = 0)"
proof -
  from float_of_int_small [OF assms(1,2)] obtain x
    where x: "float_of_int d = Inr x" "0 \<le> x" "x \<le> 2 ^ 126" by blast
  have b: "0 < b" using assms(3) by simp
  have q0: "0 \<le> x / b" using x(2) b by simp
  have "x / b \<le> 2 ^ 126 / (1 / 4)" using x assms(3) by (intro frac_le) simp_all
  then have "x / b \<le> pow2 128" by (simp add: pow2_def)
  then have "round_double (x / b) \<le> pow2 128" using q0 by (intro round_double_le_pow2) simp_all
  then have lt: "round_double (x / b) < 2 ^ 1024" by (simp add: pow2_def)
  have ge: "0 \<le> round_double (x / b)" using q0 by (rule round_double_nonneg)
  have "int_div_float d (Finite b) = Inr (Finite (round_double (x / b)))"
    using x(1) b lt ge by (simp add: int_div_float_def float_overflow_def)
  moreover have "d = 0 \<longrightarrow> round_double (x / b) = 0"
    using float_of_int_nonneg [OF assms(1) x(1)] by (auto simp: round_double_0)
  ultimately show ?thesis using ge by simp
qed

lemma cosine_of_sums_finite:
  assumes "0 \<le> d" "d < 2 ^ 126" "0 \<le> n1" "n1 < 2 ^ 126" "0 \<le> n2" "n2 < 2 ^ 126"
  shows "\<exists>r. cosine_of_sums d n1 n2 = Inr (Finite r) \<and> 0 \<le> r
           \<and> (d = 0 \<or> n1 = 0 \<or> n2 = 0 \<longrightarrow> r = 0)"
proof -
  from math_sqrt_small [OF assms(3,4)] obtain m1
    where m1: "math_sqrt n1 = Inr m1" "0 \<le> m1" "m1 \<le> 2 ^ 64" by blast
  from math_sqrt_small [OF assms(5,6)] obtain m2
    where m2: "math_sqrt n2 = Inr m2" "0 \<le> m2" "m2 \<le> 2 ^ 64" by blast
  note v1 = math_sqrt_value [OF assms(3) m1(1)] and v2 = math_sqrt_value [OF assms(5) m2(1)]
  show ?thesis
  proof (cases "m1 = 0 \<or> m2 = 0")
    case True
    then show ?thesis using m1(1) m2(1) by (simp add: cosine_of_sums_def)
  next
    case False
    then have h: "1 / 2 \<le> m1" "1 / 2 \<le> m2" and nz: "n1 \<noteq> 0" "n2 \<noteq> 0"
      using v1 v2 by auto
    from float_mul_small [OF h(1) m1(3) h(2) m2(3)] obtain b
      where b: "float_mul m1 m2 = Finite b" "1 / 4 \<le> b" by blast
    from int_div_float_small [OF assms(1,2) b(2)] obtain r
      where r: "int_div_float d (Finite b) = Inr (Finite r)" "0 \<le> r" "d = 0 \<longrightarrow> r = 0"
      by blast
    have "cosine_of_sums d n1 n2 = Inr (Finite r)"
      using m1(1) m2(1) False b(1) r(1) by (simp add: cosine_of_sums_def)
    then show ?thesis using r nz by simp
  qed
qed

section \<open>Symmetry and orthogonality\<close>

lemma vocabulary_commute: "vocabulary vec1 vec2 = vocabulary vec2 vec1"
  by (auto simp: vocabulary_def)

lemma dot_product_commute: "dot_product vec1 vec2 = dot_product vec2 vec1"
  unfolding dot_product_def vocabulary_commute [of vec1 vec2]
  by (rule sum.cong) (simp_all add: mult.commute)

text \<open>
  C3. Symmetry: swapping the two mappings does not change what
  \<open>calculate_cosine_similarity\<close> returns (the same float, or the same error), for all
  mappings with integer values.
\<close>

theorem cosine_similarity_symmetric:
  "calculate_cosine_similarity vec1 vec2 = calculate_cosine_similarity vec2 vec1"
proof -
  have "calculate_cosine_similarity vec1 vec2 =
      cosine_of_sums (dot_product vec1 vec2)
        (sum_squares (vocabulary vec1 vec2) vec1) (sum_squares (vocabulary vec1 vec2) vec2)"
    by (rule calculate_cosine_similarity_sums)
  also have "\<dots> = cosine_of_sums (dot_product vec1 vec2)
        (sum_squares (vocabulary vec1 vec2) vec2) (sum_squares (vocabulary vec1 vec2) vec1)"
    by (rule cosine_of_sums_commute) (rule sum_squares_nonneg)+
  also have "\<dots> = cosine_of_sums (dot_product vec2 vec1)
        (sum_squares (vocabulary vec2 vec1) vec2) (sum_squares (vocabulary vec2 vec1) vec1)"
    by (simp only: dot_product_commute [of vec1 vec2] vocabulary_commute [of vec1 vec2])
  also have "\<dots> = calculate_cosine_similarity vec2 vec1"
    by (rule calculate_cosine_similarity_sums [symmetric])
  finally show ?thesis .
qed

lemma dot_product_disjoint:
  assumes "set (dict_keys vec1) \<inter> set (dict_keys vec2) = {}"
  shows "dot_product vec1 vec2 = 0"
  unfolding dot_product_def
proof (rule sum.neutral, rule ballI)
  fix w assume "w \<in> vocabulary vec1 vec2"
  with assms have "w \<notin> set (dict_keys vec1) \<or> w \<notin> set (dict_keys vec2)" by auto
  then show "dict_get vec1 w 0 * dict_get vec2 w 0 = 0"
    by (auto simp: dict_get_notin)
qed

lemma frequency_cosine:
  assumes "frequency_vector vec1" "frequency_vector vec2"
  shows "\<exists>r. calculate_cosine_similarity vec1 vec2 = Inr (Finite r) \<and> 0 \<le> r
           \<and> (dot_product vec1 vec2 = 0 \<or> sum_squares (vocabulary vec1 vec2) vec1 = 0
                \<or> sum_squares (vocabulary vec1 vec2) vec2 = 0 \<longrightarrow> r = 0)"
  unfolding calculate_cosine_similarity_sums
  using frequency_dot_product [OF assms]
    frequency_sum_squares [OF assms(1) finite_vocabulary, of vec1 vec2]
    frequency_sum_squares [OF assms(2) finite_vocabulary, of vec1 vec2]
  by (intro cosine_of_sums_finite) (simp_all add: sum_squares_nonneg)

text \<open>
  C6. Orthogonality: two frequency vectors with no key in common have similarity
  \<open>0.0\<close>.
\<close>

theorem disjoint_keys_similarity_zero:
  assumes "frequency_vector vec1" "frequency_vector vec2"
    and "set (dict_keys vec1) \<inter> set (dict_keys vec2) = {}"
  shows "calculate_cosine_similarity vec1 vec2 = Inr (Finite 0)"
  using frequency_cosine [OF assms(1,2)] dot_product_disjoint [OF assms(3)] by auto

theorem disjoint_keys_similarity_zero_witness:
  "frequency_vector [([26152, 22825 :: nat], 1), ([22826, 38451], 1)]
   \<and> frequency_vector [([21518, 22825 :: nat], 1), ([26292, 38632], 1)]
   \<and> set (dict_keys [([26152, 22825 :: nat], 1), ([22826, 38451], 1 :: int)])
       \<inter> set (dict_keys [([21518, 22825], 1), ([26292, 38632], 1 :: int)]) = {}
   \<and> calculate_cosine_similarity [([26152, 22825 :: nat], 1), ([22826, 38451], 1)]
        [([21518, 22825], 1), ([26292, 38632], 1)] = Inr (Finite 0)"
proof -
  have a: "frequency_vector [([26152, 22825 :: nat], 1), ([22826, 38451], 1)]"
    by (simp add: frequency_vector_def dict_keys_def)
  have b: "frequency_vector [([21518, 22825 :: nat], 1), ([26292, 38632], 1)]"
    by (simp add: frequency_vector_def dict_keys_def)
  have c: "set (dict_keys [([26152, 22825 :: nat], 1), ([22826, 38451], 1 :: int)])
       \<inter> set (dict_keys [([21518, 22825], 1), ([26292, 38632], 1 :: int)]) = {}"
    by (simp add: dict_keys_def)
  from disjoint_keys_similarity_zero [OF a b c] a b c show ?thesis by simp
qed

lemma sum_snd_dict_set:
  "sum_list (map snd (dict_set m k (dict_get m k 0 + 1))) = sum_list (map snd m) + 1"
proof (induction m)
  case Nil
  then show ?case by (simp add: dict_get_def)
next
  case (Cons kv m)
  obtain k' v' where kv: "kv = (k', v')" by (cases kv)
  show ?case
  proof (cases "k' = k")
    case True
    then show ?thesis by (simp add: kv dict_get_def)
  next
    case False
    then have "dict_get (kv # m) k 0 = dict_get m k 0" by (simp add: kv dict_get_def)
    then show ?thesis using False Cons.IH by (simp add: kv)
  qed
qed

lemma sum_snd_count_elements:
  "sum_list (map snd (count_elements m ws)) = sum_list (map snd m) + int (length ws)"
proof (induction ws arbitrary: m)
  case Nil
  then show ?case by (simp add: count_elements_def)
next
  case (Cons w ws)
  have "count_elements m (w # ws) = count_elements (dict_set m w (dict_get m w 0 + 1)) ws"
    by (simp add: count_elements_def)
  then show ?case by (simp add: Cons.IH sum_snd_dict_set)
qed

lemma Counter_frequency_vector:
  assumes "length ws < 2 ^ 63"
  shows "frequency_vector (Counter ws)"
proof -
  have "sum_list (map snd (Counter ws)) = int (length ws)"
    by (simp add: Counter_def sum_snd_count_elements)
  moreover have "int (length ws) < 2 ^ 63" using assms
    by (metis of_nat_less_iff of_nat_numeral of_nat_power)
  moreover have "list_all (\<lambda>(k, v). 0 \<le> v) (Counter ws)"
    by (auto simp: list_all_iff dest!: Counter_entry)
  ultimately show ?thesis by (simp add: frequency_vector_def Counter_distinct)
qed

lemma sum_squares_empty: "sum_squares V [] = 0"
  by (simp add: sum_squares_def dict_get_def)

section \<open>The worked examples, evaluated\<close>

lemma float_overflow_small: "\<bar>r\<bar> \<le> 2 ^ 128 \<Longrightarrow> float_overflow r = Finite r"
proof -
  assume a: "\<bar>r\<bar> \<le> 2 ^ 128"
  have "(2::real) ^ 128 < 2 ^ 1024" by simp
  with a have "\<not> 2 ^ 1024 \<le> r" "\<not> r \<le> - (2 ^ 1024)" by linarith+
  then show ?thesis by (simp only: float_overflow_def if_False)
qed

lemma float_of_int_eq:
  assumes "0 \<le> n" "n < 2 ^ 126"
  shows "float_of_int n = Inr (round_double (of_int n))"
  using float_of_int_small [OF assms]
  by (auto simp: float_of_int_def Let_def split: if_splits)

lemma flog2_3: "flog2 3 = 1"
  by (rule flog2_unique) (simp_all add: pow2_def)

lemma round_double_3: "round_double 3 = 3"
  by (simp add: round_double_def flog2_3 Let_def pow2_def round_half_even_def)

lemma float_of_int_3: "float_of_int 3 = Inr 3"
  using float_of_int_eq [of 3] by (simp add: round_double_3)

lemma float_of_int_2: "float_of_int 2 = Inr 2"
  using float_of_int_eq [of 2] round_double_pow2 [of 1] by (simp add: pow2_def)

lemma float_of_int_0: "float_of_int 0 = Inr 0"
  using float_of_int_eq [of 0] by (simp add: round_double_0)

lemma float_sqrt_3: "float_sqrt 3 = 3900231685776981 / 2251799813685248"
  by (simp add: float_sqrt_def flog2_3 Let_def pow2_def power2_eq_square isqrt.simps)

lemma math_sqrt_0: "math_sqrt 0 = Inr 0"
  by (simp add: math_sqrt_def float_of_int_0 float_sqrt_0)

lemma math_sqrt_3: "math_sqrt 3 = Inr (3900231685776981 / 2251799813685248)"
  by (simp add: math_sqrt_def float_of_int_3 float_sqrt_3)

lemma round_double_eval:
  assumes "pow2 e \<le> x" "x < pow2 (e + 1)" "- 1022 \<le> e"
    and "round_half_even (x / pow2 (e - 52)) = m"
  shows "round_double x = of_int m * pow2 (e - 52)"
proof -
  have pos: "0 < x" using assms(1) pow2_pos [of e] by linarith
  have f: "flog2 x = e" using assms(1,2) by (rule flog2_unique)
  have "max (e - 52) (- 1074) = e - 52" using assms(3) by simp
  then show ?thesis using assms(4) by (simp add: round_double_pos [OF pos] f)
qed

lemma rhe_p:
  "round_half_even (3900231685776981 / 2251799813685248 * (3900231685776981 / 2251799813685248) / pow2 (1 - 52))
    = 6755399441055743"
  by (simp add: round_half_even_def pow2_def Let_def)


lemma round_sqrt3_squared:
  "round_double (3900231685776981 / 2251799813685248 * (3900231685776981 / 2251799813685248))
     = 6755399441055743 / 2251799813685248"
proof -
  have "round_double (3900231685776981 / 2251799813685248 * (3900231685776981 / 2251799813685248))
      = of_int 6755399441055743 * pow2 (1 - 52)"
  proof (rule round_double_eval)
    show "pow2 1 \<le> 3900231685776981 / 2251799813685248 * (3900231685776981 / 2251799813685248)"
      by (simp add: pow2_def)
    show "3900231685776981 / 2251799813685248 * (3900231685776981 / 2251799813685248) < pow2 (1 + 1)"
      by (simp add: pow2_def)
    show "- 1022 \<le> (1::int)" by simp
    show "round_half_even (3900231685776981 / 2251799813685248
        * (3900231685776981 / 2251799813685248) / pow2 (1 - 52)) = 6755399441055743"
      by (rule rhe_p)
  qed
  also have "\<dots> = 6755399441055743 / 2251799813685248" by (simp add: pow2_def)
  finally show ?thesis .
qed

lemma sqrt3_squared:
  "float_mul (3900231685776981 / 2251799813685248) (3900231685776981 / 2251799813685248)
     = Finite (6755399441055743 / 2251799813685248)"
  unfolding float_mul_def round_sqrt3_squared
  by (rule float_overflow_small) simp

lemma int_div_float_eval:
  assumes "float_of_int n = Inr x" "b \<noteq> 0" "round_double (x / b) = r" "\<bar>r\<bar> \<le> 2 ^ 128"
  shows "int_div_float n (Finite b) = Inr (Finite r)"
  using assms(1,2,3) float_overflow_small [OF assms(4)] by (simp add: int_div_float_def)

lemma round_three_over:
  "round_double (3 / (6755399441055743 / 2251799813685248))
     = 4503599627370497 / 4503599627370496"
proof -
  have "round_double (3 / (6755399441055743 / 2251799813685248))
      = of_int 4503599627370497 * pow2 (0 - 52)"
  proof (rule round_double_eval)
    show "pow2 0 \<le> 3 / (6755399441055743 / 2251799813685248)"
      by (simp add: pow2_def)
    show "3 / (6755399441055743 / 2251799813685248) < pow2 (0 + 1)"
      by (simp add: pow2_def)
    show "- 1022 \<le> (0::int)" by simp
    show "round_half_even (3 / (6755399441055743 / 2251799813685248) / pow2 (0 - 52))
        = 4503599627370497"
      by (simp add: round_half_even_def pow2_def Let_def)
  qed
  also have "\<dots> = 4503599627370497 / 4503599627370496" by (simp add: pow2_def)
  finally show ?thesis .
qed

lemma round_two_over:
  "round_double (2 / (6755399441055743 / 2251799813685248))
     = 3002399751580331 / 4503599627370496"
proof -
  have "round_double (2 / (6755399441055743 / 2251799813685248))
      = of_int 6004799503160662 * pow2 (- 1 - 52)"
  proof (rule round_double_eval)
    show "pow2 (- 1) \<le> 2 / (6755399441055743 / 2251799813685248)"
      by (simp add: pow2_def)
    show "2 / (6755399441055743 / 2251799813685248) < pow2 (- 1 + 1)"
      by (simp add: pow2_def)
    show "- 1022 \<le> (- 1::int)" by simp
    show "round_half_even (2 / (6755399441055743 / 2251799813685248) / pow2 (- 1 - 52))
        = 6004799503160662"
      by (simp add: round_half_even_def pow2_def Let_def)
  qed
  also have "\<dots> = 3002399751580331 / 4503599627370496" by (simp add: pow2_def)
  finally show ?thesis .
qed

lemma three_over:
  "int_div_float 3 (Finite (6755399441055743 / 2251799813685248))
     = Inr (Finite (4503599627370497 / 4503599627370496))"
  by (rule int_div_float_eval [OF float_of_int_3 _ round_three_over]) simp_all

lemma two_over:
  "int_div_float 2 (Finite (6755399441055743 / 2251799813685248))
     = Inr (Finite (3002399751580331 / 4503599627370496))"
  by (rule int_div_float_eval [OF float_of_int_2 _ round_two_over]) simp_all

lemma cosine_of_sums_2_3_3:
  "cosine_of_sums 2 3 3 = Inr (Finite (3002399751580331 / 4503599627370496))"
  by (simp add: cosine_of_sums_def math_sqrt_3 sqrt3_squared two_over)

lemma cosine_of_sums_3_3_3:
  "cosine_of_sums 3 3 3 = Inr (Finite (4503599627370497 / 4503599627370496))"
  by (simp add: cosine_of_sums_def math_sqrt_3 sqrt3_squared three_over)

lemma example_partial:
  "calculate_cosine_similarity partial_vec1 partial_vec2
   = Inr (Finite (3002399751580331 / 4503599627370496))"
  by (simp add: calculate_cosine_similarity_def cosine_over_sums dict_keys_def dict_get_def
      cosine_of_sums_2_3_3 partial_vec1_def partial_vec2_def)

lemma example_self:
  "calculate_cosine_similarity partial_vec1 partial_vec1
   = Inr (Finite (4503599627370497 / 4503599627370496))"
  by (simp add: calculate_cosine_similarity_def cosine_over_sums dict_keys_def dict_get_def
      cosine_of_sums_3_3_3 partial_vec1_def)

section \<open>The value returned for frequency vectors\<close>

lemma float_overflow_Finite: "float_overflow v = Finite r \<Longrightarrow> r = v"
  by (simp add: float_overflow_def split: if_splits)

lemma math_sqrt_eq:
  assumes "0 \<le> n" "n < 2 ^ 126"
  shows "math_sqrt n = Inr (float_sqrt (round_double (of_int n)))"
  using float_of_int_eq [OF assms] round_double_nonneg [of "of_int n"] assms(1)
  by (simp add: math_sqrt_def)

lemma float_mul_eq:
  assumes "1 / 2 \<le> a" "a \<le> 2 ^ 64" "1 / 2 \<le> b" "b \<le> 2 ^ 64"
  shows "float_mul a b = Finite (round_double (a * b)) \<and> 1 / 4 \<le> round_double (a * b)"
proof -
  from float_mul_small [OF assms] obtain r where r: "float_mul a b = Finite r" "1 / 4 \<le> r"
    by blast
  then have "r = round_double (a * b)"
    by (simp add: float_mul_def float_overflow_Finite)
  with r show ?thesis by simp
qed

lemma int_div_float_eq:
  assumes "0 \<le> d" "d < 2 ^ 126" "1 / 4 \<le> b"
  shows "int_div_float d (Finite b) = Inr (Finite (round_double (round_double (of_int d) / b)))"
proof -
  from int_div_float_small [OF assms] obtain r
    where r: "int_div_float d (Finite b) = Inr (Finite r)" by blast
  have b: "b \<noteq> 0" using assms(3) by auto
  from r have "float_overflow (round_double (round_double (of_int d) / b)) = Finite r"
    using float_of_int_eq [OF assms(1,2)] b by (simp add: int_div_float_def)
  then have "r = round_double (round_double (of_int d) / b)" by (rule float_overflow_Finite)
  with r show ?thesis by simp
qed

lemma cosine_of_sums_eq:
  assumes "0 \<le> d" "d < 2 ^ 126" "0 < n1" "n1 < 2 ^ 126" "0 < n2" "n2 < 2 ^ 126"
  shows "cosine_of_sums d n1 n2 =
     Inr (Finite (round_double (round_double (of_int d)
       / round_double (float_sqrt (round_double (of_int n1))
            * float_sqrt (round_double (of_int n2))))))"
proof -
  have p1: "0 \<le> n1" and p2: "0 \<le> n2" using assms by simp_all
  define m1 where "m1 = float_sqrt (round_double (of_int n1))"
  define m2 where "m2 = float_sqrt (round_double (of_int n2))"
  have e1: "math_sqrt n1 = Inr m1" unfolding m1_def using p1 assms(4) by (rule math_sqrt_eq)
  have e2: "math_sqrt n2 = Inr m2" unfolding m2_def using p2 assms(6) by (rule math_sqrt_eq)
  from math_sqrt_small [OF p1 assms(4)] e1 have u1: "m1 \<le> 2 ^ 64" by simp
  from math_sqrt_small [OF p2 assms(6)] e2 have u2: "m2 \<le> 2 ^ 64" by simp
  from math_sqrt_value [OF p1 e1] assms(3) have l1: "1 / 2 \<le> m1" by simp
  from math_sqrt_value [OF p2 e2] assms(5) have l2: "1 / 2 \<le> m2" by simp
  from float_mul_eq [OF l1 u1 l2 u2]
  have fm: "float_mul m1 m2 = Finite (round_double (m1 * m2))"
    and q: "1 / 4 \<le> round_double (m1 * m2)" by simp_all
  have nz: "\<not> (m1 = 0 \<or> m2 = 0)" using l1 l2 by auto
  have "cosine_of_sums d n1 n2 = int_div_float d (Finite (round_double (m1 * m2)))"
    using nz by (simp add: cosine_of_sums_def e1 e2 fm)
  also have "\<dots> = Inr (Finite (round_double (round_double (of_int d) / round_double (m1 * m2))))"
    using assms(1,2) q by (rule int_div_float_eq)
  finally show ?thesis by (simp only: m1_def m2_def)
qed

lemma positive_sum_squares:
  assumes "sum_squares V vec \<noteq> 0"
  shows "0 < sum_squares V vec"
  using assms sum_squares_nonneg [of V vec] by linarith

lemma partial_vec1_frequency: "frequency_vector partial_vec1"
  by (simp add: frequency_vector_def dict_keys_def partial_vec1_def)

lemma partial_vec2_frequency: "frequency_vector partial_vec2"
  by (simp add: frequency_vector_def dict_keys_def partial_vec2_def)

lemma sum_squares_list:
  "sum_squares (vocabulary vec1 vec2) vec =
     sum_list (map (\<lambda>w. dict_get vec w 0 * dict_get vec w 0)
       (remdups (dict_keys vec1 @ dict_keys vec2)))"
  by (simp add: sum_list_distinct_conv_sum_set sum_squares_def vocabulary_def)

lemma partial_sum_squares:
  "sum_squares (vocabulary partial_vec1 partial_vec2) partial_vec1 = 3"
  "sum_squares (vocabulary partial_vec1 partial_vec2) partial_vec2 = 3"
  by (simp_all add: sum_squares_list dict_keys_def dict_get_def
      partial_vec1_def partial_vec2_def)

text \<open>
  C4. Boundedness asks for a result in \<open>[0, 1]\<close> on non-negative counts. On the first
  mapping of the worked example compared with itself the function returns
  \<open>1 + 2^-52\<close> (printed 1.0000000000000002), which is above \<open>1\<close>.
\<close>

theorem self_similarity_exceeds_one:
  "frequency_vector partial_vec1
   \<and> calculate_cosine_similarity partial_vec1 partial_vec1 = Inr (Finite (1 + 1 / 2 ^ 52))
   \<and> \<not> (1 + 1 / 2 ^ 52 \<le> (1::real))"
  by (simp add: example_self partial_vec1_frequency)

section \<open>The zero-magnitude policy and repeated runs\<close>

lemma Counter_Nil: "Counter [] = []"
  by (simp add: Counter_def count_elements_def)

lemma zero_magnitude_guard:
  assumes "math_sqrt (sum_squares (vocabulary vec1 vec2) vec1) = Inr magnitude1"
    and "math_sqrt (sum_squares (vocabulary vec1 vec2) vec2) = Inr magnitude2"
    and "magnitude1 = 0 \<or> magnitude2 = 0"
  shows "calculate_cosine_similarity vec1 vec2 = Inr (Finite 0)"
  using assms by (auto simp: calculate_cosine_similarity_sums cosine_of_sums_def)

lemma calculate_similarity_total:
  assumes "length (preprocess_text isalnum isspace jieba_cut a) < 2 ^ 63"
    and "length (preprocess_text isalnum isspace jieba_cut b) < 2 ^ 63"
  shows "\<exists>r. calculate_similarity isalnum isspace jieba_cut a b = Inr (Finite r)
           \<and> (preprocess_text isalnum isspace jieba_cut a = []
                \<or> preprocess_text isalnum isspace jieba_cut b = [] \<longrightarrow> r = 0)"
proof -
  define ta where "ta = preprocess_text isalnum isspace jieba_cut a"
  define tb where "tb = preprocess_text isalnum isspace jieba_cut b"
  have cs: "calculate_similarity isalnum isspace jieba_cut a b
      = calculate_cosine_similarity (Counter ta) (Counter tb)"
    by (simp add: calculate_similarity_def Let_def ta_def tb_def)
  have fa: "frequency_vector (Counter ta)" and fb: "frequency_vector (Counter tb)"
    using assms by (simp_all add: ta_def tb_def Counter_frequency_vector)
  from frequency_cosine [OF fa fb] obtain r
    where r: "calculate_cosine_similarity (Counter ta) (Counter tb) = Inr (Finite r)"
      and z: "sum_squares (vocabulary (Counter ta) (Counter tb)) (Counter ta) = 0
              \<or> sum_squares (vocabulary (Counter ta) (Counter tb)) (Counter tb) = 0
              \<longrightarrow> r = 0"
    by blast
  have "ta = [] \<or> tb = [] \<longrightarrow> r = 0"
    using z by (auto simp: Counter_Nil sum_squares_empty)
  with r show ?thesis unfolding cs ta_def tb_def by blast
qed

text \<open>
  C2. No input makes \<open>calculate_cosine_similarity\<close> divide by zero; when either computed
  magnitude is zero it returns \<open>0.0\<close>; and \<open>calculate_similarity\<close> returns a finite float
  for every pair of texts (token lists being Python lists, shorter than \<open>2^63\<close>),
  which is \<open>0.0\<close> when either text has no token.
\<close>

theorem zero_magnitude_policy:
  "calculate_cosine_similarity vec1 vec2 \<noteq> Inl ZeroDivisionError
   \<and> (math_sqrt (sum_squares (vocabulary vec1 vec2) vec1) = Inr magnitude1
      \<and> math_sqrt (sum_squares (vocabulary vec1 vec2) vec2) = Inr magnitude2
      \<and> (magnitude1 = 0 \<or> magnitude2 = 0)
      \<longrightarrow> calculate_cosine_similarity vec1 vec2 = Inr (Finite 0))
   \<and> (length (preprocess_text isalnum isspace jieba_cut a) < 2 ^ 63
      \<and> length (preprocess_text isalnum isspace jieba_cut b) < 2 ^ 63
      \<longrightarrow> (\<exists>r. calculate_similarity isalnum isspace jieba_cut a b = Inr (Finite r)
             \<and> (preprocess_text isalnum isspace jieba_cut a = []
                  \<or> preprocess_text isalnum isspace jieba_cut b = [] \<longrightarrow> r = 0)))"
proof (intro conjI impI)
  show "calculate_cosine_similarity vec1 vec2 \<noteq> Inl ZeroDivisionError"
    unfolding calculate_cosine_similarity_sums
    by (rule cosine_of_sums_no_zero_division) (rule sum_squares_nonneg)+
next
  assume "math_sqrt (sum_squares (vocabulary vec1 vec2) vec1) = Inr magnitude1
      \<and> math_sqrt (sum_squares (vocabulary vec1 vec2) vec2) = Inr magnitude2
      \<and> (magnitude1 = 0 \<or> magnitude2 = 0)"
  then show "calculate_cosine_similarity vec1 vec2 = Inr (Finite 0)"
    using zero_magnitude_guard by blast
next
  assume "length (preprocess_text isalnum isspace jieba_cut a) < 2 ^ 63
      \<and> length (preprocess_text isalnum isspace jieba_cut b) < 2 ^ 63"
  then show "\<exists>r. calculate_similarity isalnum isspace jieba_cut a b = Inr (Finite r)
             \<and> (preprocess_text isalnum isspace jieba_cut a = []
                  \<or> preprocess_text isalnum isspace jieba_cut b = [] \<longrightarrow> r = 0)"
    using calculate_similarity_total by blast
qed

theorem zero_magnitude_policy_witness:
  "math_sqrt (sum_squares (vocabulary [] partial_vec1) []) = Inr 0
   \<and> math_sqrt (sum_squares (vocabulary [] partial_vec1) partial_vec1)
       = Inr (3900231685776981 / 2 ^ 51)
   \<and> calculate_cosine_similarity [] partial_vec1 = Inr (Finite 0)
   \<and> length (preprocess_text (\<lambda>c. 97 \<le> c \<and> c \<le> 122) (\<lambda>c. c = 32) (map (\<lambda>c. [c])) []) < 2 ^ 63
   \<and> length (preprocess_text (\<lambda>c. 97 \<le> c \<and> c \<le> 122) (\<lambda>c. c = 32) (map (\<lambda>c. [c]))
        [97, 33, 98]) < 2 ^ 63
   \<and> preprocess_text (\<lambda>c. 97 \<le> c \<and> c \<le> 122) (\<lambda>c. c = 32) (map (\<lambda>c. [c])) [] = []
   \<and> calculate_similarity (\<lambda>c. 97 \<le> c \<and> c \<le> 122) (\<lambda>c. c = 32) (map (\<lambda>c. [c]))
        [] [97, 33, 98] = Inr (Finite 0)"
proof -
  have m1: "math_sqrt (sum_squares (vocabulary [] partial_vec1) []) = Inr 0"
    by (simp add: sum_squares_empty math_sqrt_0)
  have m2: "math_sqrt (sum_squares (vocabulary [] partial_vec1) partial_vec1)
       = Inr (3900231685776981 / 2 ^ 51)"
    by (simp add: sum_squares_list dict_keys_def dict_get_def partial_vec1_def math_sqrt_3)
  have la: "length (preprocess_text (\<lambda>c. 97 \<le> c \<and> c \<le> 122) (\<lambda>c. c = 32)
      (map (\<lambda>c. [c])) []) < 2 ^ 63"
    by (simp add: preprocess_text_def)
  have lb: "length (preprocess_text (\<lambda>c. 97 \<le> c \<and> c \<le> 122) (\<lambda>c. c = 32)
      (map (\<lambda>c. [c])) [97, 33, 98]) < 2 ^ 63"
    by (simp add: preprocess_text_def)
  have e: "preprocess_text (\<lambda>c. 97 \<le> c \<and> c \<le> 122) (\<lambda>c. c = 32) (map (\<lambda>c. [c])) [] = []"
    by (simp add: preprocess_text_def)
  note t = zero_magnitude_policy [of "[]" partial_vec1 0 "3900231685776981 / 2 ^ 51"
      "\<lambda>c. 97 \<le> c \<and> c \<le> 122" "\<lambda>c. c = 32" "map (\<lambda>c. [c])" "[]" "[97, 33, 98]"]
  from t m1 m2 have c: "calculate_cosine_similarity [] partial_vec1 = Inr (Finite 0)"
    by blast
  from t la lb e
  have s: "calculate_similarity (\<lambda>c. 97 \<le> c \<and> c \<le> 122) (\<lambda>c. c = 32) (map (\<lambda>c. [c]))
        [] [97, 33, 98] = Inr (Finite 0)"
    by blast
  from m1 m2 c la lb e s show ?thesis by blast
qed

text \<open>
  C9. The tokens are a function of the text and of the segmenter with its dictionary; the
  only other thing a run can vary is the order in which the \<open>set\<close> \<open>all_words\<close> is
  iterated. Whatever that order, the body run on the two frequency mappings returns what
  \<open>calculate_similarity\<close> returns, so two runs on equal texts give equal scores.
\<close>

theorem similarity_independent_of_iteration_order:
  assumes "distinct ws"
    and "set ws = vocabulary (Counter (preprocess_text isalnum isspace jieba_cut a))
                    (Counter (preprocess_text isalnum isspace jieba_cut b))"
  shows "cosine_over ws (Counter (preprocess_text isalnum isspace jieba_cut a))
           (Counter (preprocess_text isalnum isspace jieba_cut b))
         = calculate_similarity isalnum isspace jieba_cut a b"
  using cosine_over_vocabulary [OF assms]
  by (simp add: calculate_similarity_def Let_def calculate_cosine_similarity_sums)

theorem similarity_independent_of_iteration_order_witness:
  "distinct [[99], [97], [98 :: nat]]
   \<and> set [[99], [97], [98]]
       = vocabulary (Counter (preprocess_text (\<lambda>c. 97 \<le> c \<and> c \<le> 122) (\<lambda>c. c = 32)
                       (map (\<lambda>c. [c])) [97, 33, 98]))
           (Counter (preprocess_text (\<lambda>c. 97 \<le> c \<and> c \<le> 122) (\<lambda>c. c = 32)
                       (map (\<lambda>c. [c])) [98, 99, 98]))
   \<and> cosine_over [[99], [97], [98]]
         (Counter (preprocess_text (\<lambda>c. 97 \<le> c \<and> c \<le> 122) (\<lambda>c. c = 32)
                       (map (\<lambda>c. [c])) [97, 33, 98]))
         (Counter (preprocess_text (\<lambda>c. 97 \<le> c \<and> c \<le> 122) (\<lambda>c. c = 32)
                       (map (\<lambda>c. [c])) [98, 99, 98]))
       = calculate_similarity (\<lambda>c. 97 \<le> c \<and> c \<le> 122) (\<lambda>c. c = 32) (map (\<lambda>c. [c]))
           [97, 33, 98] [98, 99, 98]"
proof -
  have d: "distinct [[99], [97], [98 :: nat]]" by simp
  have v: "set [[99], [97], [98]]
       = vocabulary (Counter (preprocess_text (\<lambda>c. 97 \<le> c \<and> c \<le> 122) (\<lambda>c. c = 32)
                       (map (\<lambda>c. [c])) [97, 33, 98]))
           (Counter (preprocess_text (\<lambda>c. 97 \<le> c \<and> c \<le> 122) (\<lambda>c. c = 32)
                       (map (\<lambda>c. [c])) [98, 99, 98]))"
    by (auto simp: vocabulary_def Counter_keys preprocess_text_def not_word_not_space_def
        uni_is_word_def)
  from similarity_independent_of_iteration_order [OF d v] d v show ?thesis by blast
qed

section \<open>Self-similarity\<close>

lemma round_double_err_normal:
  assumes "pow2 (- 1022) \<le> x"
  shows "\<bar>round_double x - x\<bar> \<le> x / 2 ^ 53"
proof -
  have pos: "0 < x" using assms pow2_pos [of "- 1022"] by linarith
  note assms
  also have "x < pow2 (flog2 x + 1)" using flog2_bounds [OF pos] by simp
  finally have "- 1022 < flog2 x + 1" by (simp only: pow2_less_iff)
  then have f0: "- 1022 \<le> flog2 x" by simp
  define e where "e = flog2 x - 52"
  have e: "max (flog2 x - 52) (- 1074) = e" using f0 by (simp add: e_def)
  have rd: "round_double x = of_int (round_half_even (x / pow2 e)) * pow2 e"
    using pos by (simp add: round_double_pos e)
  have "round_double x - x = (of_int (round_half_even (x / pow2 e)) - x / pow2 e) * pow2 e"
    using pow2_pos [of e] by (simp add: rd field_simps)
  then have "\<bar>round_double x - x\<bar> = \<bar>of_int (round_half_even (x / pow2 e)) - x / pow2 e\<bar> * pow2 e"
    using pow2_pos [of e] by (simp add: abs_mult)
  also have "\<dots> \<le> 1 / 2 * pow2 e"
    using rhe_err [of "x / pow2 e"] pow2_pos [of e] by (intro mult_right_mono) simp_all
  also have "pow2 e = pow2 (flog2 x) * pow2 (- 52)" by (simp add: e_def flip: pow2_add)
  also have "1 / 2 * (pow2 (flog2 x) * pow2 (- 52)) = pow2 (flog2 x) / 2 ^ 53"
    by (simp add: pow2_def)
  also have "\<dots> \<le> x / 2 ^ 53" using flog2_bounds [OF pos] by (simp add: divide_right_mono)
  finally show ?thesis .
qed

lemma self_quotient_bounds:
  assumes "1 \<le> d"
  defines "p \<equiv> round_double (float_sqrt d * float_sqrt d)"
  shows "1 / 4 \<le> p \<and> 1 - 3 / 2 ^ 53 \<le> d / p \<and> d / p \<le> 1 + 5 / 2 ^ 53"
proof -
  define u :: real where "u = 1 / 2 ^ 53"
  define s where "s = float_sqrt d"
  define sd where "sd = sqrt d"
  have dpos: "0 < d" using assms(1) by simp
  have sd1: "1 \<le> sd" using assms(1) by (simp add: sd_def)
  have sdsq: "sd * sd = d" using dpos by (simp add: sd_def)
  have u: "0 < u" "u < 1" by (simp_all add: u_def)
  have "\<bar>s - sd\<bar> \<le> sd * u"
    using float_sqrt_err [OF dpos] by (simp add: s_def sd_def u_def)
  then have slo: "sd * (1 - u) \<le> s" and shi: "s \<le> sd * (1 + u)"
    by (simp_all add: algebra_simps abs_le_iff)
  have lo0: "0 \<le> sd * (1 - u)" using sd1 u by simp
  have s0: "0 \<le> s" using lo0 slo by linarith
  have "sd * (1 - u) * (sd * (1 - u)) \<le> s * s" using slo lo0 by (intro mult_mono) simp_all
  then have xlo: "d * (1 - u)\<^sup>2 \<le> s * s"
    by (simp add: power2_eq_square sdsq [symmetric] mult_ac)
  have "s * s \<le> sd * (1 + u) * (sd * (1 + u))" using shi s0 by (intro mult_mono) simp_all
  then have xhi: "s * s \<le> d * (1 + u)\<^sup>2"
    by (simp add: power2_eq_square sdsq [symmetric] mult_ac)
  have "(1 - u)\<^sup>2 \<le> d * (1 - u)\<^sup>2" using assms(1) by (simp add: mult_le_cancel_right1)
  moreover have "1 / 4 \<le> (1 - u)\<^sup>2" by (simp add: u_def power2_eq_square)
  ultimately have x4: "1 / 4 \<le> s * s" using xlo by linarith
  have "pow2 (- 1022) \<le> 1 / 4" by (simp add: pow2_def)
  with x4 have "pow2 (- 1022) \<le> s * s" by linarith
  from round_double_err_normal [OF this]
  have "\<bar>p - s * s\<bar> \<le> s * s * u" by (simp add: p_def s_def u_def)
  then have plo: "s * s * (1 - u) \<le> p" and phi: "p \<le> s * s * (1 + u)"
    by (simp_all add: algebra_simps abs_le_iff)
  have "d * (1 - u)\<^sup>2 * (1 - u) \<le> s * s * (1 - u)" using xlo u by (intro mult_right_mono) simp_all
  with plo have pL: "d * (1 - u) ^ 3 \<le> p" by (simp add: power3_eq_cube power2_eq_square mult_ac)
  have "s * s * (1 + u) \<le> d * (1 + u)\<^sup>2 * (1 + u)" using xhi u by (intro mult_right_mono) simp_all
  with phi have pH: "p \<le> d * (1 + u) ^ 3" by (simp add: power3_eq_cube power2_eq_square mult_ac)
  have L: "1 \<le> (1 + 5 * u) * (1 - u) ^ 3" by (simp add: u_def power3_eq_cube)
  have H: "(1 - 3 * u) * (1 + u) ^ 3 \<le> 1" by (simp add: u_def power3_eq_cube)
  have L4: "1 / 4 \<le> (1 - u) ^ 3" by (simp add: u_def power3_eq_cube)
  have "(1 - u) ^ 3 \<le> d * (1 - u) ^ 3" using assms(1) u by (simp add: mult_le_cancel_right1)
  with L4 pL have p4: "1 / 4 \<le> p" by linarith
  then have ppos: "0 < p" by linarith
  have "d * 1 \<le> d * ((1 + 5 * u) * (1 - u) ^ 3)" using L dpos by (intro mult_left_mono) simp_all
  also have "\<dots> = (1 + 5 * u) * (d * (1 - u) ^ 3)" by (simp add: mult_ac)
  also have "\<dots> \<le> (1 + 5 * u) * p" using pL u by (intro mult_left_mono) simp_all
  finally have "d \<le> (1 + 5 * u) * p" by simp
  then have up: "d / p \<le> 1 + 5 * u" using ppos by (simp add: pos_divide_le_eq)
  have "(1 - 3 * u) * p \<le> (1 - 3 * u) * (d * (1 + u) ^ 3)"
    using pH by (intro mult_left_mono) (simp_all add: u_def)
  also have "\<dots> = d * ((1 - 3 * u) * (1 + u) ^ 3)" by (simp add: mult_ac)
  also have "\<dots> \<le> d * 1" using H dpos by (intro mult_left_mono) simp_all
  finally have "(1 - 3 * u) * p \<le> d" by simp
  then have low: "1 - 3 * u \<le> d / p" using ppos by (simp add: pos_le_divide_eq)
  from p4 low up show ?thesis by (simp add: u_def)
qed

lemma round_below_one: "round_double (1 - 3 / 2 ^ 53) = 1 - 3 / 2 ^ 53"
proof -
  have "round_double (1 - 3 / 2 ^ 53) = of_int 9007199254740989 * pow2 (- 1 - 52)"
  proof (rule round_double_eval)
    show "pow2 (- 1) \<le> 1 - 3 / 2 ^ 53" by (simp add: pow2_def)
    show "1 - 3 / 2 ^ 53 < pow2 (- 1 + 1)" by (simp add: pow2_def)
    show "- 1022 \<le> (- 1::int)" by simp
    show "round_half_even ((1 - 3 / 2 ^ 53) / pow2 (- 1 - 52)) = 9007199254740989"
      by (simp add: round_half_even_def pow2_def Let_def)
  qed
  also have "\<dots> = 1 - 3 / 2 ^ 53" by (simp add: pow2_def)
  finally show ?thesis .
qed

lemma round_above_one: "round_double (1 + 5 / 2 ^ 53) = 1 + 1 / 2 ^ 51"
proof -
  have "round_double (1 + 5 / 2 ^ 53) = of_int 4503599627370498 * pow2 (0 - 52)"
  proof (rule round_double_eval)
    show "pow2 0 \<le> 1 + 5 / 2 ^ 53" by (simp add: pow2_def)
    show "1 + 5 / 2 ^ 53 < pow2 (0 + 1)" by (simp add: pow2_def)
    show "- 1022 \<le> (0::int)" by simp
    show "round_half_even ((1 + 5 / 2 ^ 53) / pow2 (0 - 52)) = 4503599627370498"
      by (simp add: round_half_even_def pow2_def Let_def)
  qed
  also have "\<dots> = 1 + 1 / 2 ^ 51" by (simp add: pow2_def)
  finally show ?thesis .
qed

lemma self_quotient_rounded:
  assumes "1 \<le> d"
  shows "\<bar>round_double (d / round_double (float_sqrt d * float_sqrt d)) - 1\<bar> \<le> 1 / 2 ^ 51"
proof -
  define t where "t = d / round_double (float_sqrt d * float_sqrt d)"
  from self_quotient_bounds [OF assms]
  have lo: "1 - 3 / 2 ^ 53 \<le> t" and hi: "t \<le> 1 + 5 / 2 ^ 53" by (simp_all add: t_def)
  have "(0::real) < 1 - 3 / 2 ^ 53" by simp
  from round_double_mono [OF this lo] have a: "1 - 3 / 2 ^ 53 \<le> round_double t"
    by (simp only: round_below_one)
  have "0 < t" using lo by simp
  from round_double_mono [OF this hi] have b: "round_double t \<le> 1 + 1 / 2 ^ 51"
    by (simp only: round_above_one)
  have "(3::real) / 2 ^ 53 \<le> 1 / 2 ^ 51" by simp
  with a b show ?thesis unfolding t_def by linarith
qed

lemma cosine_of_sums_self:
  assumes "0 < n" "n < 2 ^ 126"
  shows "\<exists>r. cosine_of_sums n n n = Inr (Finite r) \<and> \<bar>r - 1\<bar> \<le> 1 / 2 ^ 51"
proof -
  define d where "d = round_double (of_int n)"
  have n0: "0 \<le> n" using assms(1) by simp
  have "pow2 0 \<le> of_int n" using assms(1) by (simp add: pow2_0)
  then have "pow2 0 \<le> round_double (of_int n)" by (intro round_double_ge_pow2) simp_all
  then have d1: "1 \<le> d" by (simp add: d_def pow2_0)
  have "cosine_of_sums n n n =
      Inr (Finite (round_double (d / round_double (float_sqrt d * float_sqrt d))))"
    unfolding d_def using n0 assms(2) assms(1) assms(2) assms(1) assms(2)
    by (rule cosine_of_sums_eq)
  with self_quotient_rounded [OF d1] show ?thesis by simp
qed

lemma dot_product_self: "dot_product vec vec = sum_squares (vocabulary vec vec) vec"
  by (simp add: dot_product_def sum_squares_def)

lemma sum_squares_positive:
  assumes "vec \<noteq> []" "list_all (\<lambda>(k, v). 0 < v) vec"
  shows "0 < sum_squares (vocabulary vec vec) vec"
proof -
  obtain k v rest where vec: "vec = (k, v) # rest" using assms(1) by (cases vec) auto
  have v: "0 < v" using assms(2) by (simp add: vec)
  have g: "dict_get vec k 0 = v" by (simp add: vec dict_get_def)
  have kin: "k \<in> vocabulary vec vec" by (simp add: vocabulary_def dict_keys_def vec)
  have "sum_squares (vocabulary vec vec) vec \<noteq> 0"
  proof
    assume "sum_squares (vocabulary vec vec) vec = 0"
    then have "\<forall>w\<in>vocabulary vec vec. dict_get vec w 0 * dict_get vec w 0 = 0"
      unfolding sum_squares_def
      by (subst (asm) sum_nonneg_eq_0_iff) (simp_all add: finite_vocabulary)
    with kin have "dict_get vec k 0 * dict_get vec k 0 = 0" by blast
    with g v show False by simp
  qed
  then show ?thesis by (rule positive_sum_squares)
qed

text \<open>
  C5. Self-similarity: for a non-empty frequency vector with positive counts the
  similarity with itself is a double within two units in the last place of \<open>1.0\<close>
  (\<open>2^-51\<close>, twice the machine epsilon).
\<close>

theorem self_similarity_one:
  assumes "frequency_vector vec" "vec \<noteq> []" "list_all (\<lambda>(k, v). 0 < v) vec"
  shows "\<exists>r. calculate_cosine_similarity vec vec = Inr (Finite r) \<and> \<bar>r - 1\<bar> \<le> 1 / 2 ^ 51"
  unfolding calculate_cosine_similarity_sums dot_product_self
  using sum_squares_positive [OF assms(2,3)]
    frequency_sum_squares [OF assms(1) finite_vocabulary, of vec vec]
  by (rule cosine_of_sums_self)

theorem self_similarity_one_witness:
  "frequency_vector partial_vec1 \<and> partial_vec1 \<noteq> []
   \<and> list_all (\<lambda>(k, v). 0 < v) partial_vec1
   \<and> (\<exists>r. calculate_cosine_similarity partial_vec1 partial_vec1 = Inr (Finite r)
         \<and> \<bar>r - 1\<bar> \<le> 1 / 2 ^ 51)"
proof -
  have a: "partial_vec1 \<noteq> []" by (simp add: partial_vec1_def)
  have b: "list_all (\<lambda>(k, v). 0 < v) partial_vec1" by (simp add: partial_vec1_def)
  from self_similarity_one [OF partial_vec1_frequency a b] partial_vec1_frequency a b
  show ?thesis by blast
qed

section \<open>The cosine formula in double arithmetic\<close>

lemma round_rel_bounds:
  assumes "pow2 (- 1022) \<le> x"
  shows "x * (1 - 1 / 2 ^ 53) \<le> round_double x \<and> round_double x \<le> x * (1 + 1 / 2 ^ 53)"
proof -
  define e where "e = x / 2 ^ 53"
  have eq: "x * (1 - 1 / 2 ^ 53) = x - e" "x * (1 + 1 / 2 ^ 53) = x + e"
    by (simp_all add: algebra_simps e_def)
  have "\<bar>round_double x - x\<bar> \<le> e"
    unfolding e_def using assms by (rule round_double_err_normal)
  then have "x - e \<le> round_double x \<and> round_double x \<le> x + e" by linarith
  then show ?thesis unfolding eq .
qed

lemma sqrt_rel_bounds:
  assumes "0 < x"
  shows "sqrt x * (1 - 1 / 2 ^ 53) \<le> float_sqrt x \<and> float_sqrt x \<le> sqrt x * (1 + 1 / 2 ^ 53)"
proof -
  define e where "e = sqrt x / 2 ^ 53"
  have eq: "sqrt x * (1 - 1 / 2 ^ 53) = sqrt x - e" "sqrt x * (1 + 1 / 2 ^ 53) = sqrt x + e"
    by (simp_all add: algebra_simps e_def)
  have "\<bar>float_sqrt x - sqrt x\<bar> \<le> e"
    unfolding e_def using assms by (rule float_sqrt_err)
  then have "sqrt x - e \<le> float_sqrt x \<and> float_sqrt x \<le> sqrt x + e" by linarith
  then show ?thesis unfolding eq .
qed

lemma quotient_chain:
  fixes u :: real
  assumes u: "0 < u" "u < 1"
    and G: "0 < G" and D: "0 \<le> D" and r0: "0 \<le> r" and p0: "0 < p"
    and p: "G * (1 - u) ^ 4 \<le> p" "p \<le> G * (1 + u) ^ 4"
    and c: "D * (1 - u) \<le> c" "c \<le> D * (1 + u)"
    and r: "c / p * (1 - u) \<le> r" "r \<le> c / p * (1 + u)"
    and K1: "(1 + u)\<^sup>2 \<le> (1 + 7 * u) * (1 - u) ^ 4"
    and K2: "(1 - 7 * u) * (1 + u) ^ 4 \<le> (1 - u)\<^sup>2"
  shows "(1 - 7 * u) * (D / G) \<le> r \<and> r \<le> (1 + 7 * u) * (D / G)"
proof -
  have m4: "0 < (1 - u) ^ 4" and q4: "0 < (1 + u) ^ 4" using u by simp_all
  have rp_hi: "r * p \<le> c * (1 + u)" using r(2) p0 by (simp add: field_simps)
  have rp_lo: "c * (1 - u) \<le> r * p" using r(1) p0 by (simp add: field_simps)
  have "r * (G * (1 - u) ^ 4) \<le> r * p" using p(1) r0 by (rule mult_left_mono)
  also note rp_hi
  also have "c * (1 + u) \<le> D * (1 + u) * (1 + u)" using c(2) u by (intro mult_right_mono) simp_all
  also have "\<dots> = D * (1 + u)\<^sup>2" by (simp add: power2_eq_square)
  also have "\<dots> \<le> D * ((1 + 7 * u) * (1 - u) ^ 4)" using K1 D by (rule mult_left_mono)
  finally have "r * G * (1 - u) ^ 4 \<le> D * (1 + 7 * u) * (1 - u) ^ 4" by (simp add: mult_ac)
  then have "r * G \<le> D * (1 + 7 * u)" using m4 by simp
  then have hi: "r \<le> (1 + 7 * u) * (D / G)" using G by (simp add: field_simps)
  have "D * ((1 - 7 * u) * (1 + u) ^ 4) \<le> D * (1 - u)\<^sup>2" using K2 D by (rule mult_left_mono)
  also have "\<dots> = D * (1 - u) * (1 - u)" by (simp add: power2_eq_square)
  also have "\<dots> \<le> c * (1 - u)" using c(1) u by (intro mult_right_mono) simp_all
  also note rp_lo
  also have "r * p \<le> r * (G * (1 + u) ^ 4)" using p(2) r0 by (rule mult_left_mono)
  finally have "D * (1 - 7 * u) * (1 + u) ^ 4 \<le> r * G * (1 + u) ^ 4" by (simp add: mult_ac)
  then have "D * (1 - 7 * u) \<le> r * G" using q4 by simp
  then have lo: "(1 - 7 * u) * (D / G) \<le> r" using G by (simp add: field_simps)
  from lo hi show ?thesis ..
qed

lemma product_rel_bounds:
  fixes u :: real
  assumes u: "0 < u" "u < 1"
    and a: "0 \<le> A" "A * (1 - u) \<le> a" "a \<le> A * (1 + u)"
    and b: "0 \<le> B" "B * (1 - u) \<le> b" "b \<le> B * (1 + u)"
  shows "A * B * (1 - u)\<^sup>2 \<le> a * b \<and> a * b \<le> A * B * (1 + u)\<^sup>2"
proof -
  have a0: "0 \<le> A * (1 - u)" and b0: "0 \<le> B * (1 - u)" using a(1) b(1) u by simp_all
  have a1: "0 \<le> a" and b1: "0 \<le> b" using a0 a(2) b0 b(2) by linarith+
  have "A * (1 - u) * (B * (1 - u)) \<le> a * b" using a(2) b(2) a0 b0 a1 by (intro mult_mono) simp_all
  moreover have "a * b \<le> A * (1 + u) * (B * (1 + u))" using a(3) b(3) a1 b1 a(1) u
    by (intro mult_mono) simp_all
  ultimately show ?thesis by (simp add: power2_eq_square mult_ac)
qed

lemma cosine_relative_error:
  fixes N1 N2 D :: real
  assumes N1: "1 \<le> N1" "N1 \<le> 2 ^ 126" and N2: "1 \<le> N2" "N2 \<le> 2 ^ 126"
    and D: "1 \<le> D"
  shows "\<bar>round_double (round_double D
            / round_double (float_sqrt (round_double N1) * float_sqrt (round_double N2)))
          - D / (sqrt N1 * sqrt N2)\<bar>
         \<le> D / (sqrt N1 * sqrt N2) * (7 / 2 ^ 53)"
proof -
  define u :: real where "u = 1 / 2 ^ 53"
  have u: "0 < u" "u < 1" by (simp_all add: u_def)
  have K1: "(1 + u)\<^sup>2 \<le> (1 + 7 * u) * (1 - u) ^ 4"
    by (simp add: u_def power2_eq_square power4_eq_xxxx)
  have K2: "(1 - 7 * u) * (1 + u) ^ 4 \<le> (1 - u)\<^sup>2"
    by (simp add: u_def power2_eq_square power4_eq_xxxx)
  have K3: "1 / 4 \<le> (1 - u) ^ 3" by (simp add: u_def power3_eq_cube)
  have K4: "(1 + u) ^ 4 \<le> 2" by (simp add: u_def power4_eq_xxxx)
  have K5: "1 / 2 \<le> 1 - u" by (simp add: u_def)
  have small: "pow2 (- 1022) \<le> 1 / 2 ^ 128" by (simp add: pow2_def)
  have one: "pow2 (- 1022) \<le> 1" by (simp add: pow2_def)
  define d1 where "d1 = round_double N1"
  define d2 where "d2 = round_double N2"
  define s1 where "s1 = float_sqrt d1"
  define s2 where "s2 = float_sqrt d2"
  define p where "p = round_double (s1 * s2)"
  define c where "c = round_double D"
  define t where "t = c / p"
  define r where "r = round_double t"
  define G where "G = sqrt N1 * sqrt N2"
  have "1 * 1 \<le> sqrt N1 * sqrt N2" using N1(1) N2(1) by (intro mult_mono) simp_all
  then have G1: "1 \<le> G" by (simp add: G_def)
  have Gpos: "0 < G" using G1 by linarith
  have "sqrt N1 \<le> sqrt ((2 ^ 63)\<^sup>2)" using N1(2) by (simp only: real_sqrt_le_iff) simp
  then have sN1: "sqrt N1 \<le> 2 ^ 63" by simp
  have "sqrt N2 \<le> sqrt ((2 ^ 63)\<^sup>2)" using N2(2) by (simp only: real_sqrt_le_iff) simp
  then have sN2: "sqrt N2 \<le> 2 ^ 63" by simp
  have "G \<le> 2 ^ 63 * 2 ^ 63" unfolding G_def using sN1 sN2 N1(1) N2(1)
    by (intro mult_mono) simp_all
  then have Ghi: "G \<le> 2 ^ 126" by simp
  \<comment> \<open>the two converted sums\<close>
  have d1b: "N1 * (1 - u) \<le> d1" "d1 \<le> N1 * (1 + u)"
    using round_rel_bounds [of N1] N1(1) one by (simp_all add: d1_def u_def)
  have d2b: "N2 * (1 - u) \<le> d2" "d2 \<le> N2 * (1 + u)"
    using round_rel_bounds [of N2] N2(1) one by (simp_all add: d2_def u_def)
  have "0 < N1 * (1 - u)" "0 < N2 * (1 - u)" using N1(1) N2(1) u by simp_all
  then have d1pos: "0 < d1" and d2pos: "0 < d2" using d1b(1) d2b(1) by linarith+
  \<comment> \<open>the two norms\<close>
  have s1b: "sqrt d1 * (1 - u) \<le> s1" "s1 \<le> sqrt d1 * (1 + u)"
    using sqrt_rel_bounds [OF d1pos] by (simp_all add: s1_def u_def)
  have s2b: "sqrt d2 * (1 - u) \<le> s2" "s2 \<le> sqrt d2 * (1 + u)"
    using sqrt_rel_bounds [OF d2pos] by (simp_all add: s2_def u_def)
  have q1: "0 \<le> sqrt d1" and q2: "0 \<le> sqrt d2" using d1pos d2pos by simp_all
  have xb: "sqrt d1 * sqrt d2 * (1 - u)\<^sup>2 \<le> s1 * s2"
      "s1 * s2 \<le> sqrt d1 * sqrt d2 * (1 + u)\<^sup>2"
    using product_rel_bounds [OF u q1 s1b q2 s2b] by blast+
  have n1: "0 \<le> N1" and n2: "0 \<le> N2" using N1(1) N2(1) by simp_all
  have db: "N1 * N2 * (1 - u)\<^sup>2 \<le> d1 * d2" "d1 * d2 \<le> N1 * N2 * (1 + u)\<^sup>2"
    using product_rel_bounds [OF u n1 d1b n2 d2b] by blast+
  have sq: "sqrt d1 * sqrt d2 = sqrt (d1 * d2)" by (simp add: real_sqrt_mult)
  have "sqrt (N1 * N2 * (1 - u)\<^sup>2) \<le> sqrt (d1 * d2)" using db(1) by (simp only: real_sqrt_le_iff)
  moreover have "sqrt (N1 * N2 * (1 - u)\<^sup>2) = G * (1 - u)"
    using u by (simp add: real_sqrt_mult G_def)
  ultimately have glo: "G * (1 - u) \<le> sqrt d1 * sqrt d2" by (simp add: sq)
  have "sqrt (d1 * d2) \<le> sqrt (N1 * N2 * (1 + u)\<^sup>2)" using db(2) by (simp only: real_sqrt_le_iff)
  moreover have "sqrt (N1 * N2 * (1 + u)\<^sup>2) = G * (1 + u)"
    using u by (simp add: real_sqrt_mult G_def)
  ultimately have ghi: "sqrt d1 * sqrt d2 \<le> G * (1 + u)" by (simp add: sq)
  have "G * (1 - u) * (1 - u)\<^sup>2 \<le> sqrt d1 * sqrt d2 * (1 - u)\<^sup>2"
    using glo by (intro mult_right_mono) simp_all
  with xb(1) have xlo: "G * (1 - u) ^ 3 \<le> s1 * s2"
    by (simp add: power3_eq_cube power2_eq_square mult_ac)
  have "sqrt d1 * sqrt d2 * (1 + u)\<^sup>2 \<le> G * (1 + u) * (1 + u)\<^sup>2"
    using ghi by (intro mult_right_mono) simp_all
  with xb(2) have xhi: "s1 * s2 \<le> G * (1 + u) ^ 3"
    by (simp add: power3_eq_cube power2_eq_square mult_ac)
  \<comment> \<open>their rounded product\<close>
  have "(1 - u) ^ 3 \<le> G * (1 - u) ^ 3" using G1 u by (simp add: mult_le_cancel_right1)
  with K3 xlo have x4: "1 / 4 \<le> s1 * s2" by linarith
  have "pow2 (- 1022) \<le> 1 / 4" by (simp add: pow2_def)
  with x4 have "pow2 (- 1022) \<le> s1 * s2" by linarith
  from round_rel_bounds [OF this]
  have pb: "s1 * s2 * (1 - u) \<le> p" "p \<le> s1 * s2 * (1 + u)" by (simp_all add: p_def u_def)
  have "G * (1 - u) ^ 3 * (1 - u) \<le> s1 * s2 * (1 - u)" using xlo u by (intro mult_right_mono) simp_all
  with pb(1) have plo: "G * (1 - u) ^ 4 \<le> p"
    by (simp add: power3_eq_cube power4_eq_xxxx mult_ac)
  have "s1 * s2 * (1 + u) \<le> G * (1 + u) ^ 3 * (1 + u)" using xhi u by (intro mult_right_mono) simp_all
  with pb(2) have phi: "p \<le> G * (1 + u) ^ 4"
    by (simp add: power3_eq_cube power4_eq_xxxx mult_ac)
  have "0 < G * (1 - u) ^ 4" using Gpos u by simp
  with plo have ppos: "0 < p" by linarith
  have "G * (1 + u) ^ 4 \<le> 2 ^ 126 * 2" using Ghi K4 Gpos by (intro mult_mono) simp_all
  with phi have p127: "p \<le> 2 ^ 127" by simp
  \<comment> \<open>the converted dot product and the quotient\<close>
  have cb: "D * (1 - u) \<le> c" "c \<le> D * (1 + u)"
    using round_rel_bounds [of D] D one by (simp_all add: c_def u_def)
  have "1 * (1 / 2) \<le> D * (1 - u)" using D K5 by (intro mult_mono) simp_all
  with cb(1) have chalf: "1 / 2 \<le> c" by simp
  have "(1 / 2) / 2 ^ 127 \<le> c / p" using chalf p127 ppos by (intro frac_le) simp_all
  then have "1 / 2 ^ 128 \<le> t" by (simp add: t_def)
  with small have tn: "pow2 (- 1022) \<le> t" by linarith
  from round_rel_bounds [OF tn]
  have rb: "c / p * (1 - u) \<le> r" "r \<le> c / p * (1 + u)" by (simp_all add: r_def t_def u_def)
  have "0 \<le> c / p * (1 - u)" using chalf ppos u by simp
  with rb(1) have r0: "0 \<le> r" by linarith
  have D0: "0 \<le> D" using D by simp
  from quotient_chain [OF u Gpos D0 r0 ppos plo phi cb rb K1 K2]
  have "(1 - 7 * u) * (D / G) \<le> r" "r \<le> (1 + 7 * u) * (D / G)" by simp_all
  then have "D / G - 7 * u * (D / G) \<le> r" "r \<le> D / G + 7 * u * (D / G)"
    by (simp_all add: algebra_simps)
  then have "\<bar>r - D / G\<bar> \<le> 7 * u * (D / G)" by linarith
  moreover have "7 * u * (D / G) = D / G * (7 / 2 ^ 53)" by (simp add: u_def)
  ultimately have "\<bar>r - D / G\<bar> \<le> D / G * (7 / 2 ^ 53)" by simp
  then show ?thesis
    unfolding r_def t_def c_def p_def s1_def s2_def d1_def d2_def G_def .
qed

lemma int_real_bounds:
  assumes "0 < n" "n < 2 ^ 126"
  shows "1 \<le> real_of_int n \<and> real_of_int n \<le> 2 ^ 126"
proof -
  have "1 \<le> n" "n \<le> 2 ^ 126" using assms by simp_all
  then have "real_of_int 1 \<le> real_of_int n" "real_of_int n \<le> real_of_int (2 ^ 126)"
    by (simp_all only: of_int_le_iff)
  then show ?thesis by simp
qed

lemma cosine_of_sums_error:
  assumes "0 \<le> d" "d < 2 ^ 126" "0 < n1" "n1 < 2 ^ 126" "0 < n2" "n2 < 2 ^ 126"
  shows "\<bar>round_double (round_double (of_int d)
            / round_double (float_sqrt (round_double (of_int n1))
                 * float_sqrt (round_double (of_int n2))))
          - of_int d / (sqrt (of_int n1) * sqrt (of_int n2))\<bar>
         \<le> of_int d / (sqrt (of_int n1) * sqrt (of_int n2)) * (7 / 2 ^ 53)"
proof (cases "d = 0")
  case True
  then show ?thesis by (simp add: round_double_0)
next
  case False
  then have "0 < d" using assms(1) by simp
  from int_real_bounds [OF this assms(2)] int_real_bounds [OF assms(3,4)]
    int_real_bounds [OF assms(5,6)]
  show ?thesis by (intro cosine_relative_error) simp_all
qed

text \<open>
  C1 (as amended). On two frequency vectors with non-zero magnitudes the function returns
  the quotient of the exact dot product over the union vocabulary by the product of the
  two Euclidean norms, each operation (conversion of the sums, square roots, product,
  quotient) rounded to the nearest double; the result differs from the exact quotient by
  a relative error of at most \<open>7 * 2^-53\<close>.
\<close>

theorem cosine_similarity_formula:
  assumes "frequency_vector vec1" "frequency_vector vec2"
    and "sum_squares (vocabulary vec1 vec2) vec1 \<noteq> 0"
    and "sum_squares (vocabulary vec1 vec2) vec2 \<noteq> 0"
  shows "\<exists>r. calculate_cosine_similarity vec1 vec2 = Inr (Finite r)
    \<and> r = round_double (round_double (of_int (dot_product vec1 vec2))
       / round_double
           (float_sqrt (round_double (of_int (sum_squares (vocabulary vec1 vec2) vec1)))
            * float_sqrt (round_double (of_int (sum_squares (vocabulary vec1 vec2) vec2)))))
    \<and> \<bar>r - of_int (dot_product vec1 vec2)
             / (sqrt (of_int (sum_squares (vocabulary vec1 vec2) vec1))
                * sqrt (of_int (sum_squares (vocabulary vec1 vec2) vec2)))\<bar>
        \<le> of_int (dot_product vec1 vec2)
             / (sqrt (of_int (sum_squares (vocabulary vec1 vec2) vec1))
                * sqrt (of_int (sum_squares (vocabulary vec1 vec2) vec2))) * (7 / 2 ^ 53)"
proof -
  note d = frequency_dot_product [OF assms(1,2)]
  note n1 = positive_sum_squares [OF assms(3)]
    frequency_sum_squares [OF assms(1) finite_vocabulary, of vec1 vec2]
  note n2 = positive_sum_squares [OF assms(4)]
    frequency_sum_squares [OF assms(2) finite_vocabulary, of vec1 vec2]
  from d have d0: "0 \<le> dot_product vec1 vec2" and d1: "dot_product vec1 vec2 < 2 ^ 126"
    by simp_all
  show ?thesis
    unfolding calculate_cosine_similarity_sums
    using cosine_of_sums_eq [OF d0 d1 n1 n2] cosine_of_sums_error [OF d0 d1 n1 n2]
    by blast
qed

text \<open>
  The worked example: the formula gives the double \<open>3002399751580331 / 2^52\<close>
  (printed 0.6666666666666667), within \<open>2^-53\<close> of \<open>2/3\<close>.
\<close>

theorem cosine_similarity_formula_witness:
  "frequency_vector partial_vec1 \<and> frequency_vector partial_vec2
   \<and> sum_squares (vocabulary partial_vec1 partial_vec2) partial_vec1 \<noteq> 0
   \<and> sum_squares (vocabulary partial_vec1 partial_vec2) partial_vec2 \<noteq> 0
   \<and> (\<exists>r. calculate_cosine_similarity partial_vec1 partial_vec2 = Inr (Finite r)
      \<and> r = round_double (round_double (of_int (dot_product partial_vec1 partial_vec2))
         / round_double
             (float_sqrt (round_double (of_int
                (sum_squares (vocabulary partial_vec1 partial_vec2) partial_vec1)))
              * float_sqrt (round_double (of_int
                (sum_squares (vocabulary partial_vec1 partial_vec2) partial_vec2)))))
      \<and> r = 3002399751580331 / 2 ^ 52
      \<and> \<bar>r - 2 / 3\<bar> \<le> 1 / 2 ^ 53)"
proof -
  have c: "sum_squares (vocabulary partial_vec1 partial_vec2) partial_vec1 \<noteq> 0"
    and d: "sum_squares (vocabulary partial_vec1 partial_vec2) partial_vec2 \<noteq> 0"
    by (simp_all add: partial_sum_squares)
  from cosine_similarity_formula [OF partial_vec1_frequency partial_vec2_frequency c d]
  obtain r where r: "calculate_cosine_similarity partial_vec1 partial_vec2 = Inr (Finite r)"
    and f: "r = round_double (round_double (of_int (dot_product partial_vec1 partial_vec2))
         / round_double
             (float_sqrt (round_double (of_int
                (sum_squares (vocabulary partial_vec1 partial_vec2) partial_vec1)))
              * float_sqrt (round_double (of_int
                (sum_squares (vocabulary partial_vec1 partial_vec2) partial_vec2)))))"
    by blast
  from r have v: "r = 3002399751580331 / 2 ^ 52" by (simp add: example_partial)
  have e: "\<bar>r - 2 / 3\<bar> \<le> 1 / 2 ^ 53" unfolding v by simp
  show ?thesis
  proof (intro conjI exI [of _ r])
    show "frequency_vector partial_vec1" by (rule partial_vec1_frequency)
    show "frequency_vector partial_vec2" by (rule partial_vec2_frequency)
    show "sum_squares (vocabulary partial_vec1 partial_vec2) partial_vec1 \<noteq> 0" by (rule c)
    show "sum_squares (vocabulary partial_vec1 partial_vec2) partial_vec2 \<noteq> 0" by (rule d)
    show "calculate_cosine_similarity partial_vec1 partial_vec2 = Inr (Finite r)" by (rule r)
    show "r = round_double (round_double (of_int (dot_product partial_vec1 partial_vec2))
         / round_double
             (float_sqrt (round_double (of_int
                (sum_squares (vocabulary partial_vec1 partial_vec2) partial_vec1)))
              * float_sqrt (round_double (of_int
                (sum_squares (vocabulary partial_vec1 partial_vec2) partial_vec2)))))"
      by (rule f)
    show "r = 3002399751580331 / 2 ^ 52" by (rule v)
    show "\<bar>r - 2 / 3\<bar> \<le> 1 / 2 ^ 53" by (rule e)
  qed
qed

text \<open>C1 as stated: the result of the worked example is not the number \<open>2/3\<close>.\<close>

theorem partial_example_not_two_thirds:
  "calculate_cosine_similarity partial_vec1 partial_vec2 \<noteq> Inr (Finite (2 / 3))"
  by (simp add: example_partial)

section \<open>The tokenizer\<close>

lemma re_sub_delete: "re_sub cls [] text = filter (\<lambda>c. \<not> cls c) text"
  by (induction "text") simp_all

text \<open>
  C7. The first step of \<open>preprocess_text\<close> deletes exactly the characters that are
  neither word characters (alphanumeric or underscore) nor whitespace, keeps every other
  character in place, and hands the cleaned text to the segmenter.
\<close>

theorem preprocess_text_strips_punctuation:
  "preprocess_text isalnum isspace jieba_cut text =
     jieba_cut (filter (\<lambda>c. isalnum c \<or> c = 95 \<or> isspace c) text)"
  by (simp add: preprocess_text_def re_sub_delete not_word_not_space_def uni_is_word_def
      disj_assoc)

lemma no_empty_token_concat_Nil:
  assumes "[] \<notin> set ws" "concat ws = []"
  shows "ws = []"
proof (cases ws)
  case Nil
  then show ?thesis .
next
  case (Cons w ws')
  with assms(2) have "w = []" by simp
  with assms(1) Cons show ?thesis by simp
qed

lemma concat_singletons: "concat (map (\<lambda>c. [c]) t) = t"
  by (induction t) simp_all

lemma character_segmenter: "word_segmenter (map (\<lambda>c. [c]))"
  by (auto simp: word_segmenter_def concat_singletons)

text \<open>
  C8. With a segmenter that splits its text into word units, \<open>preprocess_text\<close> returns
  the empty token sequence on the empty string, and on every text an ordered list of
  non-empty tokens that, put end to end, are the text without its punctuation.
\<close>

theorem preprocess_text_token_sequence:
  assumes "word_segmenter jieba_cut"
  shows "preprocess_text isalnum isspace jieba_cut [] = []
    \<and> [] \<notin> set (preprocess_text isalnum isspace jieba_cut text)
    \<and> concat (preprocess_text isalnum isspace jieba_cut text)
        = filter (\<lambda>c. isalnum c \<or> c = 95 \<or> isspace c) text"
proof -
  from assms have seg: "[] \<notin> set (jieba_cut t)" "concat (jieba_cut t) = t" for t
    by (simp_all add: word_segmenter_def)
  have clean: "re_sub (not_word_not_space isalnum isspace) [] text
      = filter (\<lambda>c. isalnum c \<or> c = 95 \<or> isspace c) text"
    by (simp add: re_sub_delete not_word_not_space_def uni_is_word_def disj_assoc)
  have "jieba_cut [] = []" using seg [of "[]"] by (rule no_empty_token_concat_Nil)
  then have a: "preprocess_text isalnum isspace jieba_cut [] = []"
    by (simp add: preprocess_text_def)
  have b: "[] \<notin> set (preprocess_text isalnum isspace jieba_cut text)"
    using seg(1) by (simp add: preprocess_text_def)
  have c: "concat (preprocess_text isalnum isspace jieba_cut text)
        = filter (\<lambda>c. isalnum c \<or> c = 95 \<or> isspace c) text"
    using seg(2) by (simp add: preprocess_text_def clean)
  from a b c show ?thesis by blast
qed

theorem preprocess_text_token_sequence_witness:
  "word_segmenter (map (\<lambda>c. [c]))
   \<and> preprocess_text (\<lambda>c. 97 \<le> c \<and> c \<le> 122) (\<lambda>c. c = 32) (map (\<lambda>c. [c])) [] = []
   \<and> preprocess_text (\<lambda>c. 97 \<le> c \<and> c \<le> 122) (\<lambda>c. c = 32) (map (\<lambda>c. [c]))
        [97, 33, 32, 98] = [[97], [32], [98]]
   \<and> [] \<notin> set (preprocess_text (\<lambda>c. 97 \<le> c \<and> c \<le> 122) (\<lambda>c. c = 32)
        (map (\<lambda>c. [c])) [97, 33, 32, 98])
   \<and> concat (preprocess_text (\<lambda>c. 97 \<le> c \<and> c \<le> 122) (\<lambda>c. c = 32)
        (map (\<lambda>c. [c])) [97, 33, 32, 98]) = [97, 32, 98]"
proof -
  note t = preprocess_text_token_sequence [OF character_segmenter,
      of "\<lambda>c. 97 \<le> c \<and> c \<le> 122" "\<lambda>c. c = 32" "[97, 33, 32, 98]"]
  have v: "preprocess_text (\<lambda>c. 97 \<le> c \<and> c \<le> 122) (\<lambda>c. c = 32) (map (\<lambda>c. [c]))
        [97, 33, 32, 98] = [[97], [32], [98]]"
    by (simp add: preprocess_text_def not_word_not_space_def uni_is_word_def)
  have f: "filter (\<lambda>c. (97 \<le> c \<and> c \<le> 122) \<or> c = 95 \<or> c = 32) [97, 33, 32, 98 :: nat]
      = [97, 32, 98]" by simp
  from t character_segmenter v f show ?thesis by simp
qed

section \<open>Frequency mappings built by calculate_similarity\<close>

text \<open>
  C10. Every entry of a frequency mapping that \<open>calculate_similarity\<close> builds with
  \<open>Counter\<close> from the tokens of \<open>preprocess_text\<close> holds the number of occurrences of
  its key among the tokens, which is strictly positive.
\<close>

theorem Counter_counts_positive:
  assumes "(k, v) \<in> set (Counter (preprocess_text isalnum isspace jieba_cut text))"
  shows "0 < v \<and> v = int (count_list (preprocess_text isalnum isspace jieba_cut text) k)"
proof -
  from Counter_entry [OF assms]
  have v: "v = int (count_list (preprocess_text isalnum isspace jieba_cut text) k)"
    and k: "k \<in> set (preprocess_text isalnum isspace jieba_cut text)"
    by simp_all
  from k have "count_list (preprocess_text isalnum isspace jieba_cut text) k \<noteq> 0"
    by (simp add: count_list_0_iff)
  with v show ?thesis by simp
qed

theorem Counter_counts_positive_witness:
  "([97], 2) \<in> set (Counter (preprocess_text (\<lambda>c. 97 \<le> c \<and> c \<le> 122) (\<lambda>c. c = 32)
        (map (\<lambda>c. [c])) [97, 33, 98, 97]))
   \<and> (0::int) < 2"
proof -
  have h: "([97], 2) \<in> set (Counter (preprocess_text (\<lambda>c. 97 \<le> c \<and> c \<le> 122) (\<lambda>c. c = 32)
        (map (\<lambda>c. [c])) [97, 33, 98, 97]))"
    by (simp add: preprocess_text_def not_word_not_space_def uni_is_word_def Counter_def
        count_elements_def dict_get_def)
  from Counter_counts_positive [OF h] h show ?thesis by simp
qed

end
